theory Spec2Isabelle
  imports Complex_Main
begin

section \<open>Python floats\<close>

text \<open>
  A Python \<open>float\<close> is an IEEE double. The model keeps its special values and its
  overflow: a finite value is the real number it denotes, an operation whose exact
  result reaches \<open>2^1024 - 2^970\<close> in magnitude gives an infinity, and the operations on
  infinities and NaN are the IEEE ones. The rounding of a finite result to 53 bits,
  underflow and the sign of zero are not modelled. Python's unbounded \<open>int\<close> is \<open>int\<close>;
  its conversion to \<open>float\<close> is \<open>float_of_int\<close>, which is exact below the overflow
  threshold (beyond it Python raises \<open>OverflowError\<close>, and this function gives an
  infinity). The ints the program converts are 0, the entries of an enumerated split
  and sums of them; an entry that reaches the threshold belongs to an enumeration of
  more than \<open>10^300\<close> candidates, which no run completes.
\<close>

datatype pyfloat = Fin real | PInf | NInf | NaN

definition overflow_threshold :: real where
  "overflow_threshold = 2 ^ 1024 - 2 ^ 970"

definition fl :: "real \<Rightarrow> pyfloat" where
  "fl r = (if overflow_threshold \<le> r then PInf
           else if r \<le> - overflow_threshold then NInf
           else Fin r)"

definition float_of_int :: "int \<Rightarrow> pyfloat" where
  "float_of_int i = fl (real_of_int i)"

fun fadd :: "pyfloat \<Rightarrow> pyfloat \<Rightarrow> pyfloat" where
  "fadd (Fin a) (Fin b) = fl (a + b)"
| "fadd (Fin a) PInf = PInf"
| "fadd (Fin a) NInf = NInf"
| "fadd (Fin a) NaN = NaN"
| "fadd PInf (Fin b) = PInf"
| "fadd PInf PInf = PInf"
| "fadd PInf NInf = NaN"
| "fadd PInf NaN = NaN"
| "fadd NInf (Fin b) = NInf"
| "fadd NInf PInf = NaN"
| "fadd NInf NInf = NInf"
| "fadd NInf NaN = NaN"
| "fadd NaN y = NaN"

fun fneg :: "pyfloat \<Rightarrow> pyfloat" where
  "fneg (Fin a) = Fin (- a)"
| "fneg PInf = NInf"
| "fneg NInf = PInf"
| "fneg NaN = NaN"

definition fsub :: "pyfloat \<Rightarrow> pyfloat \<Rightarrow> pyfloat" where
  "fsub x y = fadd x (fneg y)"

fun fmul :: "pyfloat \<Rightarrow> pyfloat \<Rightarrow> pyfloat" where
  "fmul (Fin a) (Fin b) = fl (a * b)"
| "fmul (Fin a) PInf = (if a = 0 then NaN else if 0 < a then PInf else NInf)"
| "fmul (Fin a) NInf = (if a = 0 then NaN else if 0 < a then NInf else PInf)"
| "fmul (Fin a) NaN = NaN"
| "fmul PInf (Fin b) = (if b = 0 then NaN else if 0 < b then PInf else NInf)"
| "fmul PInf PInf = PInf"
| "fmul PInf NInf = NInf"
| "fmul PInf NaN = NaN"
| "fmul NInf (Fin b) = (if b = 0 then NaN else if 0 < b then NInf else PInf)"
| "fmul NInf PInf = NInf"
| "fmul NInf NInf = PInf"
| "fmul NInf NaN = NaN"
| "fmul NaN y = NaN"

text \<open>
  Division of a float by a positive number, the only division of the program
  (\<open>total_cash / shares_filled\<close> under the guard \<open>shares_filled > 0\<close>); the divisor is the
  converted int, a positive finite value or \<open>+infinity\<close>.
\<close>

fun fdiv_pos :: "pyfloat \<Rightarrow> pyfloat \<Rightarrow> pyfloat" where
  "fdiv_pos (Fin a) (Fin b) = fl (a / b)"
| "fdiv_pos (Fin a) PInf = Fin 0"
| "fdiv_pos PInf (Fin b) = PInf"
| "fdiv_pos NInf (Fin b) = NInf"
| "fdiv_pos x y = NaN"

text \<open>The comparison \<open>x < y\<close>: false whenever an operand is NaN.\<close>

fun float_less :: "pyfloat \<Rightarrow> pyfloat \<Rightarrow> bool" where
  "float_less (Fin a) (Fin b) = (a < b)"
| "float_less (Fin a) PInf = True"
| "float_less (Fin a) NInf = False"
| "float_less (Fin a) NaN = False"
| "float_less PInf y = False"
| "float_less NInf (Fin b) = True"
| "float_less NInf PInf = True"
| "float_less NInf NInf = False"
| "float_less NInf NaN = False"
| "float_less NaN y = False"

fun is_fin :: "pyfloat \<Rightarrow> bool" where
  "is_fin (Fin a) = True"
| "is_fin x = False"

text \<open>A value an operation can return: a finite one lies below the overflow threshold.\<close>

fun in_range :: "pyfloat \<Rightarrow> bool" where
  "in_range (Fin a) = (- overflow_threshold < a \<and> a < overflow_threshold)"
| "in_range x = True"

section \<open>Data model\<close>

text \<open>
  The exceptions of class \<open>Exception\<close> that the modelled code can meet: the
  \<open>IndexError\<close> of a list read out of range, and any other one raised by an
  allocator object handed to the backtester.
\<close>

datatype exn = IndexError | OtherException

text \<open>
  \<open>allocator.py\<close>, dataclass \<open>Venue\<close>; its field \<open>id\<close> is \<open>id'\<close> here, and \<open>mk_Venue\<close>
  is the constructor call that leaves \<open>fee\<close> and \<open>rebate\<close> at their defaults.
\<close>

record Venue =
  id' :: string
  ask :: pyfloat
  ask_size :: int
  fee :: pyfloat
  rebate :: pyfloat

definition mk_Venue :: "string \<Rightarrow> pyfloat \<Rightarrow> int \<Rightarrow> Venue" where
  "mk_Venue i a s = \<lparr>id' = i, ask = a, ask_size = s, fee = Fin 0.003, rebate = Fin 0.002\<rparr>"

text \<open>The fields of a \<open>ContKukanovAllocator\<close> object.\<close>

record weights =
  lambda_over :: pyfloat
  lambda_under :: pyfloat
  theta_queue :: pyfloat

definition finite_weights :: "weights \<Rightarrow> bool" where
  "finite_weights w =
     (is_fin (lambda_over w) \<and> is_fin (lambda_under w) \<and> is_fin (theta_queue w))"

section \<open>\<open>ContKukanovAllocator\<close>\<close>

text \<open>\<open>range(start, stop, stp)\<close> for a positive step.\<close>

function range_step :: "int \<Rightarrow> int \<Rightarrow> int \<Rightarrow> int list" where
  "range_step q stop stp =
     (if 0 < stp \<and> q < stop then q # range_step (q + stp) stop stp else [])"
  by pat_completeness auto
termination
  by (relation "measure (\<lambda>(q, stop, stp). nat (stop - q))") auto

declare range_step.simps [simp del]

definition step :: int where
  "step = 100"

text \<open>
  One pass of the outer loop of \<open>allocate\<close> (lines 28 to 36): every partial split
  is extended by each quantity of \<open>range(0, max_v + 1, step)\<close>.
\<close>

definition extend_splits :: "int \<Rightarrow> int list list \<Rightarrow> Venue \<Rightarrow> int list list" where
  "extend_splits order_size splits v =
     concat (map (\<lambda>alloc.
       let used = sum_list alloc;
           max_v = min (order_size - used) (ask_size v)
       in map (\<lambda>q. alloc @ [q]) (range_step 0 (max_v + 1) step)) splits)"

definition enumerate_splits :: "int \<Rightarrow> Venue list \<Rightarrow> int list list" where
  "enumerate_splits order_size venues = foldl (extend_splits order_size) [[]] venues"

text \<open>
  \<open>_compute_cost\<close>: the loop over \<open>enumerate(venues)\<close> carries \<open>(executed, cash_spent)\<close>;
  \<open>split[i]\<close> raises \<open>IndexError\<close> when the split is shorter than the venue list.
\<close>

fun cost_loop :: "Venue list \<Rightarrow> nat \<Rightarrow> int list \<Rightarrow> int \<times> pyfloat \<Rightarrow> exn + int \<times> pyfloat" where
  "cost_loop [] i split st = Inr st"
| "cost_loop (venue # rest) i split (executed, cash_spent) =
     (if i < length split then
        let exe = min (split ! i) (ask_size venue);
            executed' = executed + exe;
            cash_spent' = fadd cash_spent
                            (fmul (float_of_int exe) (fadd (ask venue) (fee venue)));
            maker_rebate = fmul (float_of_int (max (split ! i - exe) 0)) (rebate venue)
        in cost_loop rest (Suc i) split (executed', fsub cash_spent' maker_rebate)
      else Inl IndexError)"

definition compute_cost :: "weights \<Rightarrow> int list \<Rightarrow> Venue list \<Rightarrow> int \<Rightarrow> exn + pyfloat" where
  "compute_cost w split venues order_size =
     (case cost_loop venues 0 split (0, Fin 0) of
        Inl e \<Rightarrow> Inl e
      | Inr (executed, cash_spent) \<Rightarrow>
          let underfill = max (order_size - executed) 0;
              overfill = max (executed - order_size) 0;
              risk_penalty = fmul (theta_queue w) (float_of_int (underfill + overfill));
              cost_penalty = fadd (fmul (lambda_under w) (float_of_int underfill))
                                  (fmul (lambda_over w) (float_of_int overfill))
          in Inr (fadd (fadd cash_spent risk_penalty) cost_penalty))"

text \<open>The selection loop of \<open>allocate\<close> (lines 41 to 48), carrying \<open>(best_split, best_cost)\<close>.\<close>

fun select_best ::
  "weights \<Rightarrow> Venue list \<Rightarrow> int \<Rightarrow> int list list \<Rightarrow> int list \<times> pyfloat \<Rightarrow> exn + int list \<times> pyfloat"
where
  "select_best w venues order_size [] best = Inr best"
| "select_best w venues order_size (alloc # rest) (best_split, best_cost) =
     (if sum_list alloc \<noteq> order_size then
        select_best w venues order_size rest (best_split, best_cost)
      else
        (case compute_cost w alloc venues order_size of
           Inl e \<Rightarrow> Inl e
         | Inr cost \<Rightarrow>
             if float_less cost best_cost
             then select_best w venues order_size rest (alloc, cost)
             else select_best w venues order_size rest (best_split, best_cost)))"

definition allocate :: "weights \<Rightarrow> int \<Rightarrow> Venue list \<Rightarrow> exn + int list \<times> pyfloat" where
  "allocate w order_size venues =
     select_best w venues order_size (enumerate_splits order_size venues) ([], PInf)"

text \<open>
  The cash of a split: the sum of \<open>split_i * (ask_i + fee_i)\<close>, added up in venue order
  from \<open>acc\<close> as the program does.
\<close>

fun cash_from :: "pyfloat \<Rightarrow> int list \<Rightarrow> Venue list \<Rightarrow> pyfloat" where
  "cash_from acc (q # qs) (v # vs) =
     cash_from (fadd acc (fmul (float_of_int q) (fadd (ask v) (fee v)))) qs vs"
| "cash_from acc qs vs = acc"

definition cash_of :: "int list \<Rightarrow> Venue list \<Rightarrow> pyfloat" where
  "cash_of split venues = cash_from (Fin 0) split venues"

definition feasible :: "int \<Rightarrow> Venue list \<Rightarrow> bool" where
  "feasible order_size venues =
     list_ex (\<lambda>alloc. sum_list alloc = order_size) (enumerate_splits order_size venues)"

text \<open>
  Some enumerated candidate sums to the order size and is given a cost that compares
  below \<open>+infinity\<close>.
\<close>

definition scorable :: "weights \<Rightarrow> int \<Rightarrow> Venue list \<Rightarrow> bool" where
  "scorable w order_size venues =
     list_ex (\<lambda>alloc. sum_list alloc = order_size \<and>
                (case compute_cost w alloc venues order_size of
                   Inl e \<Rightarrow> False
                 | Inr cost \<Rightarrow> float_less cost PInf))
       (enumerate_splits order_size venues)"

text \<open>What the enumeration guarantees of the entry it gives a venue.\<close>

definition entry_ok :: "int \<Rightarrow> Venue \<Rightarrow> bool" where
  "entry_ok q v = (0 \<le> q \<and> q \<le> ask_size v \<and> step dvd q)"

section \<open>\<open>create_venues_from_snapshot\<close>\<close>

text \<open>
  A market-data record with its three fields present; \<open>publisher_id\<close> is an integer,
  and \<open>str\<close> of an integer is its decimal numeral.
\<close>

record raw_record =
  publisher_id :: int
  ask_px_00 :: pyfloat
  ask_sz_00 :: int

definition digit_char :: "nat \<Rightarrow> char" where
  "digit_char d = char_of (48 + d)"

function str_nat :: "nat \<Rightarrow> string" where
  "str_nat n = (if n < 10 then [digit_char n] else str_nat (n div 10) @ [digit_char (n mod 10)])"
  by pat_completeness auto
termination
  by (relation "measure (\<lambda>n. n)") auto

declare str_nat.simps [simp del]

definition str_int :: "int \<Rightarrow> string" where
  "str_int i = (if i < 0 then CHR ''-'' # str_nat (nat (- i)) else str_nat (nat i))"

text \<open>
  The first loop fills the dict \<open>venue_data\<close>, kept here as an association list in
  insertion order, which is the order a Python dict iterates in.
\<close>

fun collect_venue_data ::
  "raw_record list \<Rightarrow> (string \<times> pyfloat \<times> int) list \<Rightarrow> (string \<times> pyfloat \<times> int) list"
where
  "collect_venue_data [] venue_data = venue_data"
| "collect_venue_data (record # rest) venue_data =
     (let venue_id = str_int (publisher_id record)
      in if venue_id \<notin> set (map fst venue_data)
         then collect_venue_data rest
                (venue_data @ [(venue_id, ask_px_00 record, ask_sz_00 record)])
         else collect_venue_data rest venue_data)"

definition create_venues_from_snapshot :: "raw_record list \<Rightarrow> Venue list" where
  "create_venues_from_snapshot snapshot_data =
     map (\<lambda>(venue_id, a, s). mk_Venue venue_id a s) (collect_venue_data snapshot_data [])"

definition first_record :: "int \<Rightarrow> raw_record list \<Rightarrow> raw_record option" where
  "first_record p snapshot_data = find (\<lambda>r. publisher_id r = p) snapshot_data"

section \<open>\<open>SORBacktester\<close>\<close>

text \<open>
  \<open>ExecutionResult\<close> without its wall-clock field \<open>execution_time\<close>; the backtester
  with the two fields the calibration reads. A snapshot is its \<open>'venues'\<close> list.
\<close>

record ExecutionResult =
  total_cash :: pyfloat
  shares_filled :: int
  avg_fill_px :: pyfloat

type_synonym snapshot = "raw_record list"

record SORBacktester =
  target_shares :: int
  snapshots_received :: "snapshot list"

text \<open>An allocator object, seen through its \<open>allocate\<close> method, which may raise.\<close>

type_synonym allocator = "int \<Rightarrow> Venue list \<Rightarrow> exn + int list \<times> pyfloat"

text \<open>Lines 89 to 96 of \<open>_test_strategy\<close>: the venues of a snapshot with positive price and size.\<close>

fun valid_venues :: "snapshot \<Rightarrow> Venue list" where
  "valid_venues [] = []"
| "valid_venues (venue_data # rest) =
     (if float_less (Fin 0) (ask_px_00 venue_data) \<and> 0 < ask_sz_00 venue_data
      then mk_Venue (str_int (publisher_id venue_data)) (ask_px_00 venue_data)
             (ask_sz_00 venue_data) # valid_venues rest
      else valid_venues rest)"

text \<open>
  Lines 106 to 113: the fills of one snapshot. The state is
  \<open>(cash, filled, remaining_shares)\<close>, for the locals \<open>total_cash\<close>, \<open>shares_filled\<close>
  and \<open>remaining_shares\<close>.
\<close>

fun fill_loop ::
  "Venue list \<Rightarrow> nat \<Rightarrow> int list \<Rightarrow> pyfloat \<times> int \<times> int \<Rightarrow> pyfloat \<times> int \<times> int"
where
  "fill_loop [] i allocation st = st"
| "fill_loop (venue # rest) i allocation (cash, filled, remaining_shares) =
     (if i < length allocation \<and> 0 < allocation ! i then
        let shares_to_buy = min (min (allocation ! i) (ask_size venue)) remaining_shares
        in if 0 < shares_to_buy then
             fill_loop rest (Suc i) allocation
               (fadd cash (fmul (float_of_int shares_to_buy) (fadd (ask venue) (fee venue))),
                filled + shares_to_buy,
                remaining_shares - shares_to_buy)
           else fill_loop rest (Suc i) allocation (cash, filled, remaining_shares)
      else fill_loop rest (Suc i) allocation (cash, filled, remaining_shares))"

text \<open>
  The cash a fill adds up: the terms \<open>split_i * (ask_i + fee_i)\<close> of the positive
  entries, in venue order from \<open>acc\<close>.
\<close>

fun fill_cash :: "pyfloat \<Rightarrow> int list \<Rightarrow> Venue list \<Rightarrow> pyfloat" where
  "fill_cash acc (q # qs) (v # vs) =
     fill_cash (if 0 < q then fadd acc (fmul (float_of_int q) (fadd (ask v) (fee v)))
                else acc) qs vs"
| "fill_cash acc qs vs = acc"

text \<open>
  Lines 85 to 116: the replay over the snapshots. An exception of the allocator is
  caught and the loop goes on with the next snapshot.
\<close>

fun replay ::
  "allocator \<Rightarrow> int \<Rightarrow> snapshot list \<Rightarrow> pyfloat \<times> int \<times> int \<Rightarrow> pyfloat \<times> int \<times> int"
where
  "replay alloc target [] st = st"
| "replay alloc target (snapshot # rest) (cash, filled, remaining_shares) =
     (if remaining_shares \<le> 0 then (cash, filled, remaining_shares)
      else
        let venues = valid_venues snapshot
        in if venues = [] then
             replay alloc target rest (cash, filled, remaining_shares)
           else
             (case alloc (min remaining_shares target) venues of
                Inl e \<Rightarrow> replay alloc target rest (cash, filled, remaining_shares)
              | Inr (allocation, expected_cost) \<Rightarrow>
                  replay alloc target rest
                    (fill_loop venues 0 allocation (cash, filled, remaining_shares))))"

definition test_strategy :: "SORBacktester \<Rightarrow> allocator \<Rightarrow> ExecutionResult option" where
  "test_strategy self alloc =
     (if snapshots_received self = [] then None
      else
        (case replay alloc (target_shares self) (snapshots_received self)
                (Fin 0, 0, target_shares self) of
           (cash, filled, remaining_shares) \<Rightarrow>
             Some \<lparr>total_cash = cash, shares_filled = filled,
                   avg_fill_px = (if 0 < filled
                                  then fdiv_pos cash (float_of_int filled) else Fin 0)\<rparr>))"

definition lambda_over_values :: "pyfloat list" where
  "lambda_over_values = [Fin 0.2, Fin 0.4, Fin 0.6, Fin 0.8, Fin 1.0]"

definition lambda_under_values :: "pyfloat list" where
  "lambda_under_values = [Fin 0.3, Fin 0.5, Fin 0.7, Fin 0.9, Fin 1.1]"

definition theta_queue_values :: "pyfloat list" where
  "theta_queue_values = [Fin 0.1, Fin 0.3, Fin 0.5, Fin 0.7, Fin 0.9]"

text \<open>The three nested \<open>for\<close> loops of \<open>parameter_search\<close>, around a loop body.\<close>

definition grid_loop :: "('s \<Rightarrow> weights \<Rightarrow> 's) \<Rightarrow> 's \<Rightarrow> 's" where
  "grid_loop body s0 =
     foldl (\<lambda>s lo.
       foldl (\<lambda>s lu.
         foldl (\<lambda>s th. body s \<lparr>lambda_over = lo, lambda_under = lu, theta_queue = th\<rparr>)
           s theta_queue_values)
         s lambda_under_values)
       s0 lambda_over_values"

text \<open>
  Lines 52 to 64: the update after one trial. The state is
  \<open>(best_params, best_cost, best_result, current_combination)\<close>; the empty dict
  that \<open>best_params\<close> starts as is \<open>None\<close> here. A result object is truthy, \<open>None\<close> is not.
\<close>

type_synonym search_state = "weights option \<times> pyfloat \<times> ExecutionResult option \<times> nat"

fun search_update :: "search_state \<Rightarrow> weights \<Rightarrow> ExecutionResult option \<Rightarrow> search_state" where
  "search_update (best_params, best_cost, best_result, current_combination) w None =
     (best_params, best_cost, best_result, current_combination + 1)"
| "search_update (best_params, best_cost, best_result, current_combination) w (Some result) =
     (if float_less (total_cash result) best_cost
      then (Some w, total_cash result, Some result, current_combination + 1)
      else (best_params, best_cost, best_result, current_combination + 1))"

text \<open>
  \<open>parameter_search\<close>, lines 42 to 70, over the function \<open>trial\<close> that builds the allocator
  of a weight triple and runs \<open>_test_strategy\<close> on it; \<open>parameter_search\<close> itself is the
  search over the trials of the backtester.
\<close>

definition parameter_search_with ::
  "(weights \<Rightarrow> ExecutionResult option) \<Rightarrow> weights option \<times> ExecutionResult option"
where
  "parameter_search_with trial =
     (case grid_loop (\<lambda>st w. search_update st w (trial w)) (None, PInf, None, 0) of
        (best_params, best_cost, best_result, current_combination) \<Rightarrow>
          (best_params, best_result))"

definition parameter_search :: "SORBacktester \<Rightarrow> weights option \<times> ExecutionResult option" where
  "parameter_search self = parameter_search_with (\<lambda>w. test_strategy self (allocate w))"

text \<open>
  The grid as the specification documents it: \<open>lambda_over\<close> in 0.2, 0.4, 0.6, 0.8, 1.0,
  \<open>lambda_under\<close> in 0.3, 0.5, 0.7, 0.9, 1.1, \<open>theta_queue\<close> in 0.1, 0.3, 0.5, 0.7, 0.9,
  the first varying slowest.
\<close>

definition documented_grid :: "weights list" where
  "documented_grid =
     [\<lparr>lambda_over = Fin lo, lambda_under = Fin lu, theta_queue = Fin th\<rparr>.
        lo \<leftarrow> [0.2, 0.4, 0.6, 0.8, 1.0],
        lu \<leftarrow> [0.3, 0.5, 0.7, 0.9, 1.1],
        th \<leftarrow> [0.1, 0.3, 0.5, 0.7, 0.9]]"

section \<open>Properties of the float operations\<close>

lemma threshold_ge: "2 ^ 1023 \<le> overflow_threshold"
proof -
  define t :: real where "t = 2 ^ 1023"
  define u :: real where "u = 2 ^ 970"
  have ut: "u \<le> t" unfolding t_def u_def by (rule power_increasing) simp_all
  have "(2::real) ^ Suc 1023 = 2 * 2 ^ 1023" by (rule power_Suc)
  moreover have "Suc 1023 = 1024" by simp
  ultimately have "(2::real) ^ 1024 = 2 * t" unfolding t_def by (simp only:)
  then have "overflow_threshold = 2 * t - u"
    unfolding overflow_threshold_def u_def by (simp only:)
  with ut show ?thesis unfolding t_def[symmetric] by linarith
qed

lemma threshold_le: "overflow_threshold \<le> 2 ^ 1024"
proof -
  define t :: real where "t = 2 ^ 1024"
  define u :: real where "u = 2 ^ 970"
  have "0 \<le> u" unfolding u_def by (rule zero_le_power) simp
  moreover have "overflow_threshold = t - u"
    unfolding overflow_threshold_def t_def u_def ..
  ultimately show ?thesis unfolding t_def[symmetric] by linarith
qed

lemma million_le: "(1000000::real) \<le> 2 ^ 1023"
proof -
  have "(1000000::real) \<le> 2 ^ 20" by simp
  also have "(2::real) ^ 20 \<le> 2 ^ 1023" by (rule power_increasing) simp_all
  finally show ?thesis .
qed

lemma threshold_pos: "0 < overflow_threshold"
  using threshold_ge million_le by linarith

lemma fl_small: "- 1000000 < r \<Longrightarrow> r < 1000000 \<Longrightarrow> fl r = Fin r"
proof -
  assume a: "- 1000000 < r" "r < 1000000"
  from a threshold_ge million_le have "\<not> overflow_threshold \<le> r" by linarith
  moreover from a threshold_ge million_le have "\<not> r \<le> - overflow_threshold" by linarith
  ultimately show ?thesis by (simp add: fl_def)
qed

lemma fl_overflow: "overflow_threshold \<le> r \<Longrightarrow> fl r = PInf"
  by (simp add: fl_def)

lemma ten_307_le: "(10::real) ^ 307 \<le> 2 ^ 1021"
proof -
  have a: "(10::real) ^ 31 \<le> 2 ^ 103" by simp
  have b: "(10::real) ^ 28 \<le> 2 ^ 94" by simp
  have "((10::real) ^ 31) ^ 9 \<le> (2 ^ 103) ^ 9" using a by (rule power_mono) simp
  then have c: "(10::real) ^ (31 * 9) \<le> 2 ^ (103 * 9)" by (simp only: power_mult)
  have "(10::real) ^ (31 * 9) * 10 ^ 28 \<le> 2 ^ (103 * 9) * 2 ^ 94"
    using c b by (rule mult_mono) simp_all
  then have "(10::real) ^ (31 * 9 + 28) \<le> 2 ^ (103 * 9 + 94)" by (simp only: power_add)
  moreover have "31 * 9 + 28 = (307::nat)" by simp
  moreover have "103 * 9 + 94 = (1021::nat)" by simp
  ultimately show ?thesis by (simp only:)
qed

lemma ten_309_ge: "(2::real) ^ 1024 \<le> 10 ^ 309"
proof -
  have a: "(2::real) ^ 93 \<le> 10 ^ 28" by simp
  have "((2::real) ^ 93) ^ 11 \<le> (10 ^ 28) ^ 11" using a by (rule power_mono) simp
  then have c: "(2::real) ^ (93 * 11) \<le> 10 ^ (28 * 11)" by (simp only: power_mult)
  have b: "(2::real) ^ 1 \<le> 10 ^ 1" by simp
  have "(2::real) ^ (93 * 11) * 2 ^ 1 \<le> 10 ^ (28 * 11) * 10 ^ 1"
    using c b by (rule mult_mono) simp_all
  then have "(2::real) ^ (93 * 11 + 1) \<le> 10 ^ (28 * 11 + 1)" by (simp only: power_add)
  moreover have "93 * 11 + 1 = (1024::nat)" by simp
  moreover have "28 * 11 + 1 = (309::nat)" by simp
  ultimately show ?thesis by (simp only:)
qed

lemma fl_in_range: "in_range (fl r)"
  using threshold_pos by (simp add: fl_def)

lemma fl_id: "in_range (Fin a) \<Longrightarrow> fl a = Fin a"
  by (simp add: fl_def)

lemma fl_zero: "fl 0 = Fin 0"
  using threshold_pos by (simp add: fl_def)

lemma float_of_int_zero: "float_of_int 0 = Fin 0"
  by (simp add: float_of_int_def fl_zero)

lemma fadd_in_range: "in_range (fadd x y)"
  by (cases x; cases y) (simp_all add: fl_in_range)

lemma fadd_zero_right: "in_range x \<Longrightarrow> fadd x (Fin 0) = x"
  by (cases x) (simp_all add: fl_id)

lemma fadd_zero_left: "in_range x \<Longrightarrow> fadd (Fin 0) x = x"
  by (cases x) (simp_all add: fl_id)

lemma fsub_zero: "in_range x \<Longrightarrow> fsub x (Fin 0) = x"
  by (simp add: fsub_def fadd_zero_right)

lemma fadd_NaN_right: "fadd x NaN = NaN"
  by (cases x) simp_all

lemma fsub_NaN_right: "fsub x NaN = NaN"
  by (simp add: fsub_def fadd_NaN_right)

lemma fmul_fin_zero: "fmul (Fin t) (Fin 0) = Fin 0"
  by (simp add: fl_zero)

lemma fmul_zero_left: "fmul (Fin 0) r = (if is_fin r then Fin 0 else NaN)"
  by (cases r) (simp_all add: fl_zero)

lemma fmul_zero_right: "fmul x (Fin 0) = (if is_fin x then Fin 0 else NaN)"
  by (cases x) (simp_all add: fl_zero)

lemma float_less_irrefl: "\<not> float_less x x"
  by (cases x) simp_all

lemma float_less_NaN_right: "\<not> float_less x NaN"
  by (cases x) simp_all

lemma float_less_PInf: "float_less a b \<Longrightarrow> float_less a PInf"
  by (cases a; cases b) simp_all

lemma not_float_less_PInf: "\<not> float_less x PInf \<longleftrightarrow> x = PInf \<or> x = NaN"
  by (cases x) simp_all

lemma float_less_asym: "float_less a b \<Longrightarrow> \<not> float_less b a"
  by (cases a; cases b) simp_all

lemma float_less_le_trans:
  "float_less a b \<Longrightarrow> \<not> float_less c b \<Longrightarrow> c \<noteq> NaN \<Longrightarrow> float_less a c"
  by (cases a; cases b; cases c) simp_all

lemma cash_from_NaN: "cash_from NaN qs vs = NaN"
  by (induction NaN qs vs rule: cash_from.induct) simp_all

lemma float_less_trans: "float_less a b \<Longrightarrow> float_less b c \<Longrightarrow> float_less a c"
  by (cases a; cases b; cases c) simp_all

section \<open>Properties of the enumeration and the cost\<close>

lemma range_step_mem:
  "x \<in> set (range_step q stop stp) \<Longrightarrow> q \<le> x \<and> x < stop \<and> stp dvd (x - q)"
proof (induction q stop stp rule: range_step.induct)
  case (1 q stop stp)
  show ?case
  proof (cases "0 < stp \<and> q < stop")
    case True
    with "1.prems" have "x = q \<or> x \<in> set (range_step (q + stp) stop stp)"
      by (subst (asm) range_step.simps) auto
    then show ?thesis
    proof
      assume "x = q" with True show ?thesis by simp
    next
      assume "x \<in> set (range_step (q + stp) stop stp)"
      from "1.IH"[OF True this] True
      have "q + stp \<le> x" "x < stop" "stp dvd (x - (q + stp))" by auto
      moreover have "x - q = (x - (q + stp)) + stp" by simp
      moreover have "stp dvd (x - (q + stp)) + stp"
        using \<open>stp dvd (x - (q + stp))\<close> by (rule dvd_add) simp
      ultimately show ?thesis using True by simp
    qed
  next
    case False
    with "1.prems" show ?thesis by (subst (asm) range_step.simps) auto
  qed
qed

lemma extend_splits_ok:
  assumes "\<forall>a \<in> set splits. list_all2 entry_ok a pre"
  shows "\<forall>a \<in> set (extend_splits os splits v). list_all2 entry_ok a (pre @ [v])"
proof
  fix a assume "a \<in> set (extend_splits os splits v)"
  then obtain b q where b: "b \<in> set splits" and a: "a = b @ [q]"
    and q: "q \<in> set (range_step 0 (min (os - sum_list b) (ask_size v) + 1) step)"
    by (auto simp: extend_splits_def Let_def)
  from range_step_mem[OF q] have "entry_ok q v" by (simp add: entry_ok_def)
  with assms b a show "list_all2 entry_ok a (pre @ [v])"
    by (simp add: list_all2_appendI)
qed

lemma foldl_extend_ok:
  "\<forall>a \<in> set splits. list_all2 entry_ok a pre \<Longrightarrow>
   \<forall>a \<in> set (foldl (extend_splits os) splits vs). list_all2 entry_ok a (pre @ vs)"
proof (induction vs arbitrary: splits pre)
  case Nil
  then show ?case by simp
next
  case (Cons v vs)
  from Cons.IH[OF extend_splits_ok[OF Cons.prems], of os v] show ?case by simp
qed

lemma enumerate_splits_ok:
  "a \<in> set (enumerate_splits os vs) \<Longrightarrow> list_all2 entry_ok a vs"
  using foldl_extend_ok[of "[[]]" "[]" os vs] by (simp add: enumerate_splits_def)

lemma cost_loop_ok:
  "list_all2 entry_ok (drop i split) vs \<Longrightarrow> in_range c \<Longrightarrow>
   \<exists>c'. cost_loop vs i split (e, c) = Inr (e + sum_list (drop i split), c') \<and>
        in_range c' \<and> (c' = NaN \<or> c' = cash_from c (drop i split) vs)"
proof (induction vs arbitrary: i e c)
  case Nil
  then show ?case by simp
next
  case (Cons v vs)
  from Cons.prems(1) obtain q qs where d: "drop i split = q # qs"
    and q: "entry_ok q v" and qs: "list_all2 entry_ok qs vs"
    by (auto simp: list_all2_Cons2)
  from d have i: "i < length split" by (metis drop_all list.distinct(1) not_le)
  from d i have qi: "split ! i = q" by (metis Cons_nth_drop_Suc list.inject)
  from d i have ds: "drop (Suc i) split = qs" by (metis Cons_nth_drop_Suc list.inject)
  from q have m: "min q (ask_size v) = q" by (simp add: entry_ok_def)
  from qs ds have ok': "list_all2 entry_ok (drop (Suc i) split) vs" by simp
  let ?t = "fmul (float_of_int q) (fadd (ask v) (fee v))"
  let ?r = "fmul (float_of_int 0) (rebate v)"
  let ?c1 = "fsub (fadd c ?t) ?r"
  have step: "cost_loop (v # vs) i split (e, c) = cost_loop vs (Suc i) split (e + q, ?c1)"
    using i qi m by (simp add: Let_def)
  have r1: "in_range ?c1" by (simp add: fsub_def fadd_in_range)
  from Cons.IH[OF ok' r1, of "e + q"] obtain c' where
    run: "cost_loop vs (Suc i) split (e + q, ?c1) = Inr (e + q + sum_list qs, c')"
    and rng: "in_range c'" and val: "c' = NaN \<or> c' = cash_from ?c1 qs vs"
    unfolding ds by blast
  have "c' = NaN \<or> c' = cash_from c (q # qs) (v # vs)"
  proof (cases "is_fin (rebate v)")
    case True
    then have "?r = Fin 0" by (simp add: float_of_int_zero fmul_zero_left)
    then have "?c1 = fadd c ?t" by (simp add: fsub_zero fadd_in_range)
    with val show ?thesis by simp
  next
    case False
    then have "?r = NaN" by (simp add: float_of_int_zero fmul_zero_left)
    then have "?c1 = NaN" by (simp add: fsub_NaN_right)
    with val show ?thesis by (simp add: cash_from_NaN)
  qed
  with run rng show ?case unfolding step d by (simp add: add.assoc)
qed

lemma compute_cost_finite:
  assumes ok: "list_all2 entry_ok a vs" and sum: "sum_list a = os" and w: "finite_weights w"
  shows "\<exists>cs. cost_loop vs 0 a (0, Fin 0) = Inr (os, cs) \<and>
              compute_cost w a vs os = Inr cs \<and>
              (cs = NaN \<or> cs = cash_of a vs)"
proof -
  have "in_range (Fin 0)" using threshold_pos by simp
  from cost_loop_ok[of 0 a vs "Fin 0" 0, OF _ this] ok sum obtain cs where
    run: "cost_loop vs 0 a (0, Fin 0) = Inr (os, cs)" and rng: "in_range cs"
    and val: "cs = NaN \<or> cs = cash_of a vs"
    by (auto simp: cash_of_def)
  from w obtain lo lu th where ws: "lambda_over w = Fin lo" "lambda_under w = Fin lu"
      "theta_queue w = Fin th"
    unfolding finite_weights_def
    by (cases "lambda_over w"; cases "lambda_under w"; cases "theta_queue w") simp_all
  have "compute_cost w a vs os = Inr cs"
    using run rng ws
    by (simp add: compute_cost_def float_of_int_zero fl_zero fadd_zero_right)
  with run val show ?thesis by blast
qed

lemma compute_cost_nonfinite:
  assumes ok: "list_all2 entry_ok a vs" and sum: "sum_list a = os"
    and w: "\<not> finite_weights w"
  shows "compute_cost w a vs os = Inr NaN"
proof -
  have "in_range (Fin 0)" using threshold_pos by simp
  from cost_loop_ok[of 0 a vs "Fin 0" 0, OF _ this] ok sum obtain cs where
    run: "cost_loop vs 0 a (0, Fin 0) = Inr (os, cs)"
    by auto
  let ?risk = "fmul (theta_queue w) (Fin 0)"
  let ?pen = "fadd (fmul (lambda_under w) (Fin 0)) (fmul (lambda_over w) (Fin 0))"
  have cc: "compute_cost w a vs os = Inr (fadd (fadd cs ?risk) ?pen)"
    using run by (simp add: compute_cost_def float_of_int_zero)
  from w have "\<not> is_fin (theta_queue w) \<or> \<not> is_fin (lambda_under w) \<or> \<not> is_fin (lambda_over w)"
    by (auto simp: finite_weights_def)
  then have "?risk = NaN \<or> ?pen = NaN"
    by (auto simp: fmul_zero_right fadd_NaN_right)
  then have "fadd (fadd cs ?risk) ?pen = NaN"
    by (auto simp: fadd_NaN_right)
  with cc show ?thesis by simp
qed

lemma compute_cost_total:
  assumes "list_all2 entry_ok a vs" and "sum_list a = os"
  shows "\<exists>c. compute_cost w a vs os = Inr c"
proof (cases "finite_weights w")
  case True
  from compute_cost_finite[OF assms True] show ?thesis by blast
next
  case False
  from compute_cost_nonfinite[OF assms False] show ?thesis by blast
qed

lemma compute_cost_weights:
  assumes "list_all2 entry_ok a vs" and "sum_list a = os"
    and "finite_weights w" and "finite_weights w'"
  shows "compute_cost w a vs os = compute_cost w' a vs os"
  using compute_cost_finite[OF assms(1,2,3)] compute_cost_finite[OF assms(1,2,4)]
  by auto

lemma compute_cost_cash:
  assumes ok: "list_all2 entry_ok a vs" and sum: "sum_list a = os"
    and c: "compute_cost w a vs os = Inr c" and nn: "c \<noteq> NaN"
  shows "c = cash_of a vs \<and> finite_weights w"
proof (cases "finite_weights w")
  case True
  from compute_cost_finite[OF ok sum True] c nn show ?thesis using True by auto
next
  case False
  from compute_cost_nonfinite[OF ok sum False] c nn show ?thesis by simp
qed

lemma select_best_weights:
  "\<forall>a \<in> set cands. list_all2 entry_ok a vs \<Longrightarrow> finite_weights w \<Longrightarrow> finite_weights w' \<Longrightarrow>
   select_best w vs os cands best = select_best w' vs os cands best"
proof (induction cands arbitrary: best)
  case Nil
  then show ?case by simp
next
  case (Cons a cands)
  obtain bs bc where best: "best = (bs, bc)" by (cases best)
  from Cons.prems have ok: "list_all2 entry_ok a vs"
    and rest: "\<forall>a \<in> set cands. list_all2 entry_ok a vs" by simp_all
  note IH = Cons.IH[OF rest Cons.prems(2,3)]
  show ?case
  proof (cases "sum_list a = os")
    case True
    from compute_cost_weights[OF ok True Cons.prems(2,3)]
    show ?thesis using True IH by (simp add: best split: sum.splits)
  next
    case False
    then show ?thesis using IH by (simp add: best)
  qed
qed

lemma select_best_result:
  "\<forall>a \<in> set cands. list_all2 entry_ok a vs \<Longrightarrow>
   \<exists>s c. select_best w vs os cands (bs, bc) = Inr (s, c) \<and>
     ((s, c) = (bs, bc) \<or>
      (s \<in> set cands \<and> sum_list s = os \<and> compute_cost w s vs os = Inr c \<and>
       float_less c PInf))"
proof (induction cands arbitrary: bs bc)
  case Nil
  then show ?case by simp
next
  case (Cons a cands)
  from Cons.prems have ok: "list_all2 entry_ok a vs"
    and rest: "\<forall>a \<in> set cands. list_all2 entry_ok a vs" by simp_all
  show ?case
  proof (cases "sum_list a = os")
    case False
    then have eq: "select_best w vs os (a # cands) (bs, bc) =
        select_best w vs os cands (bs, bc)" by simp
    from Cons.IH[OF rest, of bs bc] show ?thesis unfolding eq by auto
  next
    case True
    from compute_cost_total[OF ok True, of w] obtain c0
      where c0: "compute_cost w a vs os = Inr c0" by blast
    show ?thesis
    proof (cases "float_less c0 bc")
      case True
      with \<open>sum_list a = os\<close> c0 have eq: "select_best w vs os (a # cands) (bs, bc) =
          select_best w vs os cands (a, c0)" by simp
      from True have "float_less c0 PInf" by (rule float_less_PInf)
      with Cons.IH[OF rest, of a c0] c0 \<open>sum_list a = os\<close> show ?thesis
        unfolding eq by auto
    next
      case False
      with \<open>sum_list a = os\<close> c0 have eq: "select_best w vs os (a # cands) (bs, bc) =
          select_best w vs os cands (bs, bc)" by simp
      from Cons.IH[OF rest, of bs bc] show ?thesis unfolding eq by auto
    qed
  qed
qed

lemma select_best_none:
  "\<forall>a \<in> set cands. sum_list a = os \<longrightarrow>
      (\<exists>c. compute_cost w a vs os = Inr c \<and> \<not> float_less c PInf) \<Longrightarrow>
   select_best w vs os cands (bs, PInf) = Inr (bs, PInf)"
  by (induction cands) auto

lemma select_best_below:
  "\<forall>a \<in> set cands. list_all2 entry_ok a vs \<Longrightarrow> float_less bc PInf \<Longrightarrow>
   select_best w vs os cands (bs, bc) = Inr (s, c) \<Longrightarrow> float_less c PInf"
  using select_best_result[of cands vs w os bs bc] by auto

lemma select_best_some:
  "\<forall>a \<in> set cands. list_all2 entry_ok a vs \<Longrightarrow>
   \<exists>a \<in> set cands. sum_list a = os \<and>
      (\<exists>c. compute_cost w a vs os = Inr c \<and> float_less c PInf) \<Longrightarrow>
   select_best w vs os cands (bs, PInf) = Inr (s, c) \<Longrightarrow> float_less c PInf"
proof (induction cands)
  case Nil
  then show ?case by simp
next
  case (Cons a cands)
  from Cons.prems(1) have ok: "list_all2 entry_ok a vs"
    and rest: "\<forall>a \<in> set cands. list_all2 entry_ok a vs" by simp_all
  show ?case
  proof (cases "sum_list a = os \<and> (\<exists>c. compute_cost w a vs os = Inr c \<and> float_less c PInf)")
    case True
    then obtain c0 where c0: "compute_cost w a vs os = Inr c0" "float_less c0 PInf"
      and sum: "sum_list a = os" by blast
    with Cons.prems(3) have "select_best w vs os cands (a, c0) = Inr (s, c)" by simp
    from select_best_below[OF rest c0(2) this] show ?thesis .
  next
    case False
    with Cons.prems(2) have ex: "\<exists>a \<in> set cands. sum_list a = os \<and>
        (\<exists>c. compute_cost w a vs os = Inr c \<and> float_less c PInf)" by auto
    have "select_best w vs os (a # cands) (bs, PInf) = select_best w vs os cands (bs, PInf)"
    proof (cases "sum_list a = os")
      case True
      from compute_cost_total[OF ok True, of w] obtain c0
        where "compute_cost w a vs os = Inr c0" by blast
      with True False show ?thesis by simp
    next
      case False
      then show ?thesis by simp
    qed
    with Cons.prems(3) have "select_best w vs os cands (bs, PInf) = Inr (s, c)" by simp
    from Cons.IH[OF rest ex this] show ?thesis .
  qed
qed

lemma allocate_cases:
  "\<exists>s c. allocate w os vs = Inr (s, c) \<and>
     ((s, c) = ([], PInf) \<or>
      (list_all2 entry_ok s vs \<and> sum_list s = os \<and> compute_cost w s vs os = Inr c \<and>
       float_less c PInf))"
proof -
  have ok: "\<forall>a \<in> set (enumerate_splits os vs). list_all2 entry_ok a vs"
    by (simp add: enumerate_splits_ok)
  from select_best_result[OF ok, of w os "[]" PInf] ok show ?thesis
    unfolding allocate_def by blast
qed

lemma allocate_weights:
  "finite_weights w \<Longrightarrow> finite_weights w' \<Longrightarrow> allocate w os vs = allocate w' os vs"
  unfolding allocate_def
  by (rule select_best_weights) (simp_all add: enumerate_splits_ok)

lemma allocate_scorable_iff:
  "allocate w os vs = Inr ([], PInf) \<longleftrightarrow> \<not> scorable w os vs"
proof
  assume a: "allocate w os vs = Inr ([], PInf)"
  show "\<not> scorable w os vs"
  proof
    assume "scorable w os vs"
    then obtain a0 where a0: "a0 \<in> set (enumerate_splits os vs)" "sum_list a0 = os"
      and cs: "case compute_cost w a0 vs os of Inl e \<Rightarrow> False
               | Inr cost \<Rightarrow> float_less cost PInf"
      by (auto simp: scorable_def list_ex_iff)
    from cs have "\<exists>c. compute_cost w a0 vs os = Inr c \<and> float_less c PInf"
      by (cases "compute_cost w a0 vs os") simp_all
    with a0 have "\<exists>a \<in> set (enumerate_splits os vs). sum_list a = os \<and>
        (\<exists>c. compute_cost w a vs os = Inr c \<and> float_less c PInf)"
      by blast
    from select_best_some[OF _ this a[unfolded allocate_def]]
    show False by (simp add: enumerate_splits_ok)
  qed
next
  assume ns: "\<not> scorable w os vs"
  have "\<forall>a \<in> set (enumerate_splits os vs). sum_list a = os \<longrightarrow>
      (\<exists>c. compute_cost w a vs os = Inr c \<and> \<not> float_less c PInf)"
  proof (intro ballI impI)
    fix a assume a: "a \<in> set (enumerate_splits os vs)" and s: "sum_list a = os"
    from compute_cost_total[OF enumerate_splits_ok[OF a] s, of w] obtain c
      where c: "compute_cost w a vs os = Inr c" by blast
    with ns a s have "\<not> float_less c PInf"
      by (auto simp: scorable_def list_ex_iff)
    with c show "\<exists>c. compute_cost w a vs os = Inr c \<and> \<not> float_less c PInf" by blast
  qed
  then show "allocate w os vs = Inr ([], PInf)"
    unfolding allocate_def by (rule select_best_none)
qed

lemma allocate_nonfinite:
  assumes "\<not> finite_weights w"
  shows "allocate w os vs = Inr ([], PInf)"
proof -
  from allocate_cases[of w os vs] obtain s c where a: "allocate w os vs = Inr (s, c)"
    and d: "(s, c) = ([], PInf) \<or>
      (list_all2 entry_ok s vs \<and> sum_list s = os \<and> compute_cost w s vs os = Inr c \<and>
       float_less c PInf)" by blast
  from d show ?thesis
  proof
    assume "(s, c) = ([], PInf)"
    with a show ?thesis by simp
  next
    assume *: "list_all2 entry_ok s vs \<and> sum_list s = os \<and>
      compute_cost w s vs os = Inr c \<and> float_less c PInf"
    with compute_cost_nonfinite[OF _ _ assms, of s vs os] have "c = NaN" by simp
    with * show ?thesis by simp
  qed
qed

lemma allocate_cost_is_cash:
  assumes "allocate w os vs = Inr (s, c)" and "(s, c) \<noteq> ([], PInf)"
  shows "list_all2 entry_ok s vs" and "sum_list s = os" and "c = cash_of s vs"
    and "float_less c PInf" and "finite_weights w"
proof -
  from allocate_cases[of w os vs] assms
  have *: "list_all2 entry_ok s vs" "sum_list s = os" "compute_cost w s vs os = Inr c"
    "float_less c PInf" by auto
  from *(4) have "c \<noteq> NaN" by auto
  note cc = compute_cost_cash[OF *(1,2,3) this]
  from * show "list_all2 entry_ok s vs" and "sum_list s = os" and "float_less c PInf"
    by simp_all
  from cc show "c = cash_of s vs" by (elim conjE)
  from cc show "finite_weights w" by (elim conjE)
qed

lemma scorable_feasible: "scorable w os vs \<Longrightarrow> feasible os vs"
  by (auto simp: scorable_def feasible_def list_ex_iff)

lemmas eval_defs = allocate_def enumerate_splits_def extend_splits_def range_step.simps
  step_def mk_Venue_def compute_cost_def float_of_int_def fl_small fsub_def

lemma overflowing_venue:
  "allocate \<lparr>lambda_over = Fin 0.2, lambda_under = Fin 0.3, theta_queue = Fin 0.1\<rparr>
     100 [mk_Venue ''A'' (Fin (10 ^ 307)) 100] = Inr ([], PInf)"
proof -
  define p :: real where "p = 10 ^ 307"
  have p_le: "p \<le> 2 ^ 1021" unfolding p_def by (rule ten_307_le)
  have "(2::real) ^ Suc 1021 = 2 * 2 ^ 1021" by (rule power_Suc)
  moreover have "Suc 1021 = 1022" by simp
  ultimately have e1: "(2::real) ^ 1022 = 2 * 2 ^ 1021" by (simp only:)
  have "(2::real) ^ 1022 \<le> 2 ^ 1023" by (rule power_increasing) simp_all
  with e1 p_le threshold_ge million_le have lt: "p + 3 / 1000 < overflow_threshold"
    by linarith
  have "(0::real) \<le> 10 ^ 307" by (rule zero_le_power) simp
  then have p0: "0 \<le> p" unfolding p_def .
  have "(10::real) ^ (2 + 307) = 10 ^ 2 * 10 ^ 307" by (rule power_add)
  moreover have "2 + 307 = (309::nat)" by simp
  ultimately have "(10::real) ^ 309 = 10 ^ 2 * p" unfolding p_def by (simp only:)
  then have h: "(10::real) ^ 309 = 100 * p" by simp
  have "overflow_threshold \<le> (10::real) ^ 309"
    using threshold_le ten_309_ge by (rule order_trans)
  then have "overflow_threshold \<le> 100 * p" by (simp only: h)
  then have ge: "overflow_threshold \<le> 100 * (p + 3 / 1000)"
    by (simp add: algebra_simps)
  from lt p0 threshold_pos have f1: "fl (p + 3 / 1000) = Fin (p + 3 / 1000)"
    by (simp add: fl_def)
  from ge have f2: "fl (100 * (p + 3 / 1000)) = PInf" by (rule fl_overflow)
  have "allocate \<lparr>lambda_over = Fin 0.2, lambda_under = Fin 0.3, theta_queue = Fin 0.1\<rparr>
     100 [mk_Venue ''A'' (Fin p) 100] = Inr ([], PInf)"
    by (simp add: allocate_def enumerate_splits_def extend_splits_def range_step.simps
        step_def mk_Venue_def compute_cost_def float_of_int_def fsub_def f1 f2 fl_small
        del: distrib_left_numeral)
  then show ?thesis unfolding p_def .
qed


lemma ab_feasible:
  "feasible 100 [mk_Venue ''A'' (Fin 9) 40, mk_Venue ''B'' (Fin 10) 500]"
  by (simp add: feasible_def enumerate_splits_def extend_splits_def range_step.simps
      step_def mk_Venue_def)

lemma ab_allocate:
  "allocate \<lparr>lambda_over = Fin lo, lambda_under = Fin lu, theta_queue = Fin th\<rparr>
     100 [mk_Venue ''A'' (Fin 9) 40, mk_Venue ''B'' (Fin 10) 500] =
     Inr ([0, 100], Fin 1000.3)"
  by (simp add: eval_defs)

section \<open>Properties of the replay\<close>

lemma fill_loop_ok:
  "list_all2 entry_ok (drop i split) vs \<Longrightarrow> sum_list (drop i split) \<le> rem \<Longrightarrow>
   fill_loop vs i split (c, f, rem) =
     (fill_cash c (drop i split) vs, f + sum_list (drop i split), rem - sum_list (drop i split))"
proof (induction vs arbitrary: i c f rem)
  case Nil
  then show ?case by simp
next
  case (Cons v vs)
  from Cons.prems(1) obtain q qs where d: "drop i split = q # qs"
    and q: "entry_ok q v" and qs: "list_all2 entry_ok qs vs"
    by (auto simp: list_all2_Cons2)
  from d have i: "i < length split" by (metis drop_all list.distinct(1) not_le)
  from d i have qi: "split ! i = q" by (metis Cons_nth_drop_Suc list.inject)
  from d i have ds: "drop (Suc i) split = qs" by (metis Cons_nth_drop_Suc list.inject)
  from qs have nn: "0 \<le> sum_list qs"
    by (induction rule: list_all2_induct) (auto simp: entry_ok_def)
  from Cons.prems(2) d nn have le: "q \<le> rem" and rest: "sum_list qs \<le> rem - q" by simp_all
  from q le have m: "min (min q (ask_size v)) rem = q" by (simp add: entry_ok_def)
  from qs ds have ok': "list_all2 entry_ok (drop (Suc i) split) vs" by simp
  show ?case
  proof (cases "0 < q")
    case True
    from rest ds have "sum_list (drop (Suc i) split) \<le> rem - q" by simp
    from Cons.IH[OF ok' this] True show ?thesis
      using i qi ds d m by (simp add: Let_def algebra_simps)
  next
    case False
    with q have q0: "q = 0" by (simp add: entry_ok_def)
    from rest ds q0 have "sum_list (drop (Suc i) split) \<le> rem" by simp
    from Cons.IH[OF ok' this] show ?thesis
      using i qi ds d q0 by simp
  qed
qed

lemma fill_cash_cash_from:
  "list_all2 entry_ok qs vs \<Longrightarrow> in_range acc \<Longrightarrow> cash_from acc qs vs \<noteq> NaN \<Longrightarrow>
   fill_cash acc qs vs = cash_from acc qs vs"
proof (induction qs vs arbitrary: acc rule: list_all2_induct)
  case Nil
  then show ?case by simp
next
  case (Cons q qs v vs)
  let ?t = "fmul (float_of_int q) (fadd (ask v) (fee v))"
  have r: "in_range (fadd acc ?t)" by (rule fadd_in_range)
  from Cons.prems(2) have nn: "cash_from (fadd acc ?t) qs vs \<noteq> NaN" by simp
  show ?case
  proof (cases "0 < q")
    case True
    with Cons.IH[OF r nn] show ?thesis by simp
  next
    case False
    with Cons.hyps(1) have q0: "q = 0" by (simp add: entry_ok_def)
    show ?thesis
    proof (cases "is_fin (fadd (ask v) (fee v))")
      case True
      with q0 have "?t = Fin 0" by (simp add: float_of_int_zero fmul_zero_left)
      then have e: "fadd acc ?t = acc" using Cons.prems(1) by (simp add: fadd_zero_right)
      from Cons.IH[OF r nn] show ?thesis using q0 e by simp
    next
      case False
      with q0 have "?t = NaN" by (simp add: float_of_int_zero fmul_zero_left)
      then have "fadd acc ?t = NaN" by (simp add: fadd_NaN_right)
      with nn show ?thesis by (simp add: cash_from_NaN)
    qed
  qed
qed

lemma replay_done:
  "rem \<le> 0 \<Longrightarrow> replay alloc target snaps (c, f, rem) = (c, f, rem)"
  by (cases snaps) simp_all


lemma replay_append:
  "replay alloc target (xs @ ys) st = replay alloc target ys (replay alloc target xs st)"
proof (induction xs arbitrary: st)
  case Nil
  then show ?case by simp
next
  case (Cons x xs)
  obtain c f rem where st: "st = (c, f, rem)" by (cases st)
  show ?case
    unfolding st using Cons.IH
    by (simp add: Let_def replay_done split: sum.splits prod.splits)
qed


lemma fill_loop_empty:
  "fill_loop vs i [] st = st"
proof (induction vs arbitrary: i)
  case Nil
  then show ?case by simp
next
  case (Cons v vs)
  then show ?case by (cases st) simp
qed


lemma entries_nonneg:
  "list_all2 entry_ok a vs \<Longrightarrow> \<forall>q \<in> set a. 0 \<le> q"
  by (induction rule: list_all2_induct) (auto simp: entry_ok_def)


lemma entry_le_remaining:
  assumes ok: "list_all2 entry_ok a vs" and le: "sum_list a \<le> rem" and i: "i < length a"
  shows "a ! i \<le> rem - sum_list (take i a)"
proof -
  have "sum_list a = sum_list (take i a) + sum_list (drop i a)"
    by (metis append_take_drop_id sum_list_append)
  moreover from i have "drop i a = a ! i # drop (Suc i) a"
    by (simp add: Cons_nth_drop_Suc)
  moreover have "0 \<le> sum_list (drop (Suc i) a)"
    using entries_nonneg[OF ok] by (auto intro!: sum_list_nonneg dest: in_set_dropD)
  ultimately show ?thesis using le by simp
qed


lemma replay_single_fill:
  assumes rem: "0 < rem" "rem \<le> target"
    and a: "allocate w (min rem target) (valid_venues s) = Inr (a, c)" and ne: "a \<noteq> []"
  shows "fill_loop (valid_venues s) 0 a (cash, filled, rem) =
           (fill_cash cash a (valid_venues s), filled + rem, 0)"
    and "replay (allocate w) target (s # rest) (cash, filled, rem) =
           (fill_cash cash a (valid_venues s), filled + rem, 0)"
    and "list_all2 entry_ok a (valid_venues s)" and "sum_list a = rem"
    and "c = cash_of a (valid_venues s)" and "float_less c PInf"
proof -
  from ne have "(a, c) \<noteq> ([], PInf)" by simp
  note r = allocate_cost_is_cash[OF a this]
  note ok = r(1) and sum = r(2) and c = r(3) and lt = r(4)
  from sum rem show s: "sum_list a = rem" by simp
  from ok show "list_all2 entry_ok a (valid_venues s)" .
  from c show "c = cash_of a (valid_venues s)" .
  from lt show "float_less c PInf" .
  from fill_loop_ok[of 0 a "valid_venues s" rem cash filled] ok s
  show f: "fill_loop (valid_venues s) 0 a (cash, filled, rem) =
           (fill_cash cash a (valid_venues s), filled + rem, 0)" by simp
  from ok ne have "valid_venues s \<noteq> []" by auto
  with rem a f show "replay (allocate w) target (s # rest) (cash, filled, rem) =
           (fill_cash cash a (valid_venues s), filled + rem, 0)"
    by (simp add: replay_done)
qed

lemma fill_cash_of_allocate:
  assumes "allocate w os vs = Inr (a, c)" and "a \<noteq> []" and "in_range acc"
    and "acc = Fin 0 \<or> cash_from acc a vs \<noteq> NaN"
  shows "fill_cash acc a vs = cash_from acc a vs"
proof -
  from assms(2) have "(a, c) \<noteq> ([], PInf)" by simp
  note r = allocate_cost_is_cash[OF assms(1) this]
  note ok = r(1) and c = r(3) and lt = r(4)
  from lt c have "cash_of a vs \<noteq> NaN" by auto
  with assms(4) have "cash_from acc a vs \<noteq> NaN" by (auto simp: cash_of_def)
  from fill_cash_cash_from[OF ok assms(3) this] show ?thesis .
qed

lemma replay_skip:
  assumes "valid_venues s = [] \<or> (\<exists>c. alloc (min rem target) (valid_venues s) = Inr ([], c))
           \<or> (\<exists>e. alloc (min rem target) (valid_venues s) = Inl e)"
  shows "replay alloc target (s # rest) (cash, filled, rem) =
         replay alloc target rest (cash, filled, rem)"
  using assms by (auto simp: replay_done fill_loop_empty Let_def)


lemma trial_one_snapshot:
  "replay (allocate w) target snaps (Fin 0, 0, target) = (Fin 0, 0, target) \<or>
   (\<exists>pre s post a c. snaps = pre @ s # post \<and>
      replay (allocate w) target pre (Fin 0, 0, target) = (Fin 0, 0, target) \<and>
      allocate w target (valid_venues s) = Inr (a, c) \<and> a \<noteq> [] \<and>
      c = cash_of a (valid_venues s) \<and> float_less c PInf \<and>
      replay (allocate w) target snaps (Fin 0, 0, target) = (c, target, 0))"
proof (induction snaps)
  case Nil
  then show ?case by simp
next
  case (Cons s snaps)
  show ?case
  proof (cases "0 < target")
    case False
    then show ?thesis by simp
  next
    case True
    from allocate_cases[of w target "valid_venues s"] obtain a c
      where a: "allocate w target (valid_venues s) = Inr (a, c)" by blast
    show ?thesis
    proof (cases "a = []")
      case True
      with a have skip: "replay (allocate w) target (s # rest) (Fin 0, 0, target) =
          replay (allocate w) target rest (Fin 0, 0, target)" for rest
        by (intro replay_skip) simp
      from Cons.IH show ?thesis
      proof
        assume "replay (allocate w) target snaps (Fin 0, 0, target) = (Fin 0, 0, target)"
        then show ?thesis by (simp only: skip) simp
      next
        assume "\<exists>pre s post a c. snaps = pre @ s # post \<and>
          replay (allocate w) target pre (Fin 0, 0, target) = (Fin 0, 0, target) \<and>
          allocate w target (valid_venues s) = Inr (a, c) \<and> a \<noteq> [] \<and>
          c = cash_of a (valid_venues s) \<and> float_less c PInf \<and>
          replay (allocate w) target snaps (Fin 0, 0, target) = (c, target, 0)"
        then obtain pre s' post a' c' where *: "snaps = pre @ s' # post"
          "replay (allocate w) target pre (Fin 0, 0, target) = (Fin 0, 0, target)"
          "allocate w target (valid_venues s') = Inr (a', c')" "a' \<noteq> []"
          "c' = cash_of a' (valid_venues s')" "float_less c' PInf"
          "replay (allocate w) target snaps (Fin 0, 0, target) = (c', target, 0)"
          by blast
        have "s # snaps = (s # pre) @ s' # post" using * by simp
        moreover have "replay (allocate w) target (s # pre) (Fin 0, 0, target) =
            (Fin 0, 0, target)"
          using * by (simp only: skip)
        moreover have "replay (allocate w) target (s # snaps) (Fin 0, 0, target) =
            (c', target, 0)"
          using * by (simp only: skip)
        ultimately show ?thesis using * by blast
      qed
    next
      case False
      from a have a': "allocate w (min target target) (valid_venues s) = Inr (a, c)" by simp
      note f = replay_single_fill[OF \<open>0 < target\<close> order_refl a' False]
      have r0: "in_range (Fin 0)" using threshold_pos by simp
      from fill_cash_of_allocate[OF a False r0] f(5)
      have "fill_cash (Fin 0) a (valid_venues s) = c" by (simp add: cash_of_def)
      with f(2)[where cash = "Fin 0" and filled = 0 and rest = snaps]
      have "replay (allocate w) target (s # snaps) (Fin 0, 0, target) = (c, target, 0)"
        by simp
      moreover have "s # snaps = [] @ s # snaps" by simp
      moreover have "replay (allocate w) target [] (Fin 0, 0, target) = (Fin 0, 0, target)"
        by simp
      ultimately show ?thesis using a False f(5,6) by blast
    qed
  qed
qed

section \<open>The allocator's contract\<close>

text \<open>
  Claim C1 as it is stated fails on a weight that is not finite: the order of 100 on the
  venues A and B is feasible and is answered \<open>([0, 100], 1000.3)\<close> under the weights
  0.2, 0.3, 0.1, but with \<open>theta_queue = +infinity\<close> the penalty \<open>inf * 0\<close> is NaN, no
  cost compares below \<open>+infinity\<close>, and the answer is \<open>([], +infinity)\<close>.
\<close>

theorem allocate_weights_counterexample:
  "feasible 100 [mk_Venue ''A'' (Fin 9) 40, mk_Venue ''B'' (Fin 10) 500] \<and>
   allocate \<lparr>lambda_over = Fin 0.2, lambda_under = Fin 0.3, theta_queue = Fin 0.1\<rparr>
     100 [mk_Venue ''A'' (Fin 9) 40, mk_Venue ''B'' (Fin 10) 500] =
     Inr ([0, 100], Fin 1000.3) \<and>
   allocate \<lparr>lambda_over = Fin 0.2, lambda_under = Fin 0.3, theta_queue = PInf\<rparr>
     100 [mk_Venue ''A'' (Fin 9) 40, mk_Venue ''B'' (Fin 10) 500] =
     Inr ([], PInf)"
proof (intro conjI)
  show "feasible 100 [mk_Venue ''A'' (Fin 9) 40, mk_Venue ''B'' (Fin 10) 500]"
    by (rule ab_feasible)
  show "allocate \<lparr>lambda_over = Fin 0.2, lambda_under = Fin 0.3, theta_queue = Fin 0.1\<rparr>
     100 [mk_Venue ''A'' (Fin 9) 40, mk_Venue ''B'' (Fin 10) 500] =
     Inr ([0, 100], Fin 1000.3)"
    by (rule ab_allocate)
  show "allocate \<lparr>lambda_over = Fin 0.2, lambda_under = Fin 0.3, theta_queue = PInf\<rparr>
     100 [mk_Venue ''A'' (Fin 9) 40, mk_Venue ''B'' (Fin 10) 500] =
     Inr ([], PInf)"
    by (simp add: eval_defs)
qed

text \<open>
  Claim C1, amended. For every order size and venue list \<open>allocate\<close> returns the same
  split and the same cost under every finite weight triple, and under a weight that is
  not finite it returns \<open>([], +infinity)\<close>. Whenever it returns anything else, the split
  sums to the order size and the cost is the cash of the split, the float sum of
  \<open>split_i * (ask_i + fee_i)\<close> in venue order, which compares below \<open>+infinity\<close>.
\<close>

theorem allocate_ignores_finite_weights:
  "(finite_weights w \<and> finite_weights w' \<longrightarrow>
      allocate w order_size venues = allocate w' order_size venues) \<and>
   (\<not> finite_weights w \<longrightarrow> allocate w order_size venues = Inr ([], PInf)) \<and>
   (allocate w order_size venues = Inr (split, cost) \<and> (split, cost) \<noteq> ([], PInf) \<longrightarrow>
      sum_list split = order_size \<and> cost = cash_of split venues \<and> float_less cost PInf)"
proof (intro conjI impI)
  assume "finite_weights w \<and> finite_weights w'"
  then show "allocate w order_size venues = allocate w' order_size venues"
    by (simp add: allocate_weights)
next
  assume "\<not> finite_weights w"
  then show "allocate w order_size venues = Inr ([], PInf)"
    by (rule allocate_nonfinite)
next
  assume a: "allocate w order_size venues = Inr (split, cost) \<and> (split, cost) \<noteq> ([], PInf)"
  then have "allocate w order_size venues = Inr (split, cost)"
    and "(split, cost) \<noteq> ([], PInf)" by simp_all
  note r = allocate_cost_is_cash[OF this]
  from r(2) show "sum_list split = order_size" .
  from r(3) show "cost = cash_of split venues" .
  from r(4) show "float_less cost PInf" .
qed

theorem allocate_ignores_finite_weights_witness:
  "finite_weights \<lparr>lambda_over = Fin 0.2, lambda_under = Fin 0.3, theta_queue = Fin 0.1\<rparr> \<and>
   finite_weights \<lparr>lambda_over = Fin 1.0, lambda_under = Fin 1.1, theta_queue = Fin 0.9\<rparr> \<and>
   allocate \<lparr>lambda_over = Fin 0.2, lambda_under = Fin 0.3, theta_queue = Fin 0.1\<rparr>
     100 [mk_Venue ''A'' (Fin 9) 40, mk_Venue ''B'' (Fin 10) 500] =
   allocate \<lparr>lambda_over = Fin 1.0, lambda_under = Fin 1.1, theta_queue = Fin 0.9\<rparr>
     100 [mk_Venue ''A'' (Fin 9) 40, mk_Venue ''B'' (Fin 10) 500] \<and>
   \<not> finite_weights \<lparr>lambda_over = Fin 0.2, lambda_under = NaN, theta_queue = Fin 0.1\<rparr> \<and>
   allocate \<lparr>lambda_over = Fin 0.2, lambda_under = NaN, theta_queue = Fin 0.1\<rparr>
     100 [mk_Venue ''A'' (Fin 9) 40, mk_Venue ''B'' (Fin 10) 500] = Inr ([], PInf) \<and>
   allocate \<lparr>lambda_over = Fin 0.2, lambda_under = Fin 0.3, theta_queue = Fin 0.1\<rparr>
     100 [mk_Venue ''A'' (Fin 9) 40, mk_Venue ''B'' (Fin 10) 500] =
     Inr ([0, 100], Fin 1000.3) \<and>
   ([0, 100 :: int], Fin 1000.3) \<noteq> ([], PInf) \<and>
   sum_list [0, 100] = (100 :: int) \<and>
   Fin 1000.3 = cash_of [0, 100] [mk_Venue ''A'' (Fin 9) 40, mk_Venue ''B'' (Fin 10) 500] \<and>
   float_less (Fin 1000.3) PInf"
proof -
  let ?w0 = "\<lparr>lambda_over = Fin 0.2, lambda_under = Fin 0.3, theta_queue = Fin 0.1\<rparr>"
  let ?w1 = "\<lparr>lambda_over = Fin 1.0, lambda_under = Fin 1.1, theta_queue = Fin 0.9\<rparr>"
  let ?wn = "\<lparr>lambda_over = Fin 0.2, lambda_under = NaN, theta_queue = Fin 0.1\<rparr>"
  let ?vs = "[mk_Venue ''A'' (Fin 9) 40, mk_Venue ''B'' (Fin 10) 500]"
  have f0: "finite_weights ?w0" by (simp add: finite_weights_def)
  have f1: "finite_weights ?w1" by (simp add: finite_weights_def)
  have fn: "\<not> finite_weights ?wn" by (simp add: finite_weights_def)
  have a: "allocate ?w0 100 ?vs = Inr ([0, 100], Fin 1000.3)" by (rule ab_allocate)
  have ne: "([0, 100], Fin 1000.3) \<noteq> (([], PInf) :: int list \<times> pyfloat)" by simp
  from allocate_ignores_finite_weights[of ?w0 ?w1 100 ?vs] f0 f1
  have c1: "allocate ?w0 100 ?vs = allocate ?w1 100 ?vs" by blast
  from allocate_ignores_finite_weights[of ?wn ?wn 100 ?vs] fn
  have c2: "allocate ?wn 100 ?vs = Inr ([], PInf)" by blast
  from allocate_ignores_finite_weights[of ?w0 ?w0 100 ?vs "[0, 100]" "Fin 1000.3"] a ne
  have c3: "sum_list [0, 100] = (100 :: int) \<and> Fin 1000.3 = cash_of [0, 100] ?vs \<and>
      float_less (Fin 1000.3) PInf" by blast
  from f0 f1 fn a ne c1 c2 c3 show ?thesis by blast
qed

text \<open>
  Claim C2. A non-empty split returned by \<open>allocate\<close> has one entry per venue, in venue
  order, and its entries sum to the order size.
\<close>

theorem allocate_split_shape:
  assumes "allocate w order_size venues = Inr (split, cost)" and "split \<noteq> []"
  shows "length split = length venues \<and> sum_list split = order_size"
  using allocate_cases[of w order_size venues] assms
  by (auto dest: list_all2_lengthD)

theorem allocate_split_shape_witness:
  "allocate \<lparr>lambda_over = Fin 0.2, lambda_under = Fin 0.3, theta_queue = Fin 0.1\<rparr>
       100 [mk_Venue ''A'' (Fin 9) 40, mk_Venue ''B'' (Fin 10) 500] =
     Inr ([0, 100], Fin 1000.3) \<and>
   [0, 100] \<noteq> ([] :: int list) \<and>
   length [0, 100 :: int] = length [mk_Venue ''A'' (Fin 9) 40, mk_Venue ''B'' (Fin 10) 500] \<and>
   sum_list [0, 100] = (100 :: int)"
proof -
  have h: "allocate \<lparr>lambda_over = Fin 0.2, lambda_under = Fin 0.3, theta_queue = Fin 0.1\<rparr>
       100 [mk_Venue ''A'' (Fin 9) 40, mk_Venue ''B'' (Fin 10) 500] =
     Inr ([0, 100], Fin 1000.3)"
    by (rule ab_allocate)
  have n: "[0, 100] \<noteq> ([] :: int list)" by simp
  from allocate_split_shape[OF h n] h n show ?thesis by blast
qed

text \<open>
  Claim C6. Every entry of a returned split lies between 0 and the venue's \<open>ask_size\<close>
  and is a multiple of the step of 100. The enumeration only ever draws quantities from
  \<open>range(0, max_v + 1, 100)\<close>, so the exception the claim allows for never arises.
\<close>

theorem allocate_capacity:
  assumes "allocate w order_size venues = Inr (split, cost)" and "i < length split"
  shows "0 \<le> split ! i \<and> split ! i \<le> ask_size (venues ! i) \<and> 100 dvd split ! i"
proof -
  from assms(2) have "split \<noteq> []" by auto
  with allocate_cases[of w order_size venues] assms(1)
  have "list_all2 entry_ok split venues" by auto
  with assms(2) have "entry_ok (split ! i) (venues ! i)" by (simp add: list_all2_nthD)
  then show ?thesis by (simp add: entry_ok_def step_def)
qed

theorem allocate_capacity_witness:
  "allocate \<lparr>lambda_over = Fin 0.2, lambda_under = Fin 0.3, theta_queue = Fin 0.1\<rparr>
       300 [mk_Venue ''A'' (Fin 9) 200, mk_Venue ''B'' (Fin 10) 500] =
     Inr ([200, 100], Fin 2800.9) \<and>
   (0::nat) < length [200, 100 :: int] \<and>
   (0::int) \<le> [200, 100] ! 0 \<and>
   [200, 100] ! 0 \<le> ask_size ([mk_Venue ''A'' (Fin 9) 200, mk_Venue ''B'' (Fin 10) 500] ! 0) \<and>
   (100::int) dvd [200, 100] ! 0"
proof -
  have h: "allocate \<lparr>lambda_over = Fin 0.2, lambda_under = Fin 0.3, theta_queue = Fin 0.1\<rparr>
       300 [mk_Venue ''A'' (Fin 9) 200, mk_Venue ''B'' (Fin 10) 500] =
     Inr ([200, 100], Fin 2800.9)"
    by (simp add: eval_defs)
  have l: "(0::nat) < length [200, 100 :: int]" by simp
  from allocate_capacity[OF h l] h l show ?thesis by blast
qed



text \<open>
  Claim C3 as it is stated fails on a price that overflows: for one venue of size 100
  at an ask of \<open>10^307\<close> the candidate \<open>[100]\<close> sums to the order of 100, its cost
  \<open>100 * (10^307 + 0.003)\<close> is \<open>+infinity\<close>, which is not below the initial best cost, and
  the answer is \<open>([], +infinity)\<close>.
\<close>

theorem allocate_infeasible_counterexample:
  "feasible 100 [mk_Venue ''A'' (Fin (10 ^ 307)) 100] \<and>
   allocate \<lparr>lambda_over = Fin 0.2, lambda_under = Fin 0.3, theta_queue = Fin 0.1\<rparr>
     100 [mk_Venue ''A'' (Fin (10 ^ 307)) 100] = Inr ([], PInf)"
proof
  show "feasible 100 [mk_Venue ''A'' (Fin (10 ^ 307)) 100]"
    by (simp add: feasible_def enumerate_splits_def extend_splits_def range_step.simps
        step_def mk_Venue_def)
  show "allocate \<lparr>lambda_over = Fin 0.2, lambda_under = Fin 0.3, theta_queue = Fin 0.1\<rparr>
     100 [mk_Venue ''A'' (Fin (10 ^ 307)) 100] = Inr ([], PInf)"
    by (rule overflowing_venue)
qed

text \<open>
  Claim C3, amended. \<open>allocate\<close> never raises; it returns the empty split with cost
  \<open>+infinity\<close> exactly when no enumerated candidate sums to the order size with a cost
  that compares below \<open>+infinity\<close>, so in particular whenever no candidate sums to the
  order size. One venue of size 50 and an order of 100 give \<open>([], +infinity)\<close>; with no
  venue the order size 0 is the only feasible one, every other order size gives
  \<open>([], +infinity)\<close>, and the order size 0 gives the empty split at cost 0 under finite
  weights.
\<close>

theorem allocate_unscorable:
  "(\<exists>r. allocate w order_size venues = Inr r) \<and>
   (allocate w order_size venues = Inr ([], PInf) \<longleftrightarrow> \<not> scorable w order_size venues) \<and>
   (\<not> feasible order_size venues \<longrightarrow> allocate w order_size venues = Inr ([], PInf)) \<and>
   allocate w 100 [mk_Venue i a 50] = Inr ([], PInf) \<and>
   (feasible order_size [] \<longleftrightarrow> order_size = 0) \<and>
   (order_size \<noteq> 0 \<longrightarrow> allocate w order_size [] = Inr ([], PInf)) \<and>
   (finite_weights w \<longrightarrow> allocate w 0 [] = Inr ([], Fin 0))"
proof (intro conjI impI)
  show "\<exists>r. allocate w order_size venues = Inr r"
    using allocate_cases[of w order_size venues] by blast
  show "allocate w order_size venues = Inr ([], PInf) \<longleftrightarrow> \<not> scorable w order_size venues"
    by (rule allocate_scorable_iff)
  show "allocate w 100 [mk_Venue i a 50] = Inr ([], PInf)"
    by (simp add: allocate_def enumerate_splits_def extend_splits_def range_step.simps
        step_def mk_Venue_def)
  show "feasible order_size [] \<longleftrightarrow> order_size = 0"
    by (auto simp: feasible_def enumerate_splits_def)
next
  assume "\<not> feasible order_size venues"
  then have "\<not> scorable w order_size venues" using scorable_feasible by blast
  then show "allocate w order_size venues = Inr ([], PInf)"
    by (simp add: allocate_scorable_iff)
next
  assume "order_size \<noteq> 0"
  then show "allocate w order_size [] = Inr ([], PInf)"
    by (simp add: allocate_def enumerate_splits_def)
next
  assume "finite_weights w"
  then obtain lo lu th where ws: "lambda_over w = Fin lo" "lambda_under w = Fin lu"
      "theta_queue w = Fin th"
    unfolding finite_weights_def
    by (cases "lambda_over w"; cases "lambda_under w"; cases "theta_queue w") simp_all
  then show "allocate w 0 [] = Inr ([], Fin 0)"
    by (simp add: allocate_def enumerate_splits_def compute_cost_def float_of_int_zero fl_zero)
qed

theorem allocate_unscorable_witness:
  "\<not> feasible 100 [mk_Venue ''A'' (Fin 9) 50] \<and>
   allocate \<lparr>lambda_over = Fin 0.2, lambda_under = Fin 0.3, theta_queue = Fin 0.1\<rparr>
       100 [mk_Venue ''A'' (Fin 9) 50] = Inr ([], PInf) \<and>
   (7::int) \<noteq> 0 \<and>
   allocate \<lparr>lambda_over = Fin 0.2, lambda_under = Fin 0.3, theta_queue = Fin 0.1\<rparr>
       7 [] = Inr ([], PInf) \<and>
   finite_weights \<lparr>lambda_over = Fin 0.2, lambda_under = Fin 0.3, theta_queue = Fin 0.1\<rparr> \<and>
   allocate \<lparr>lambda_over = Fin 0.2, lambda_under = Fin 0.3, theta_queue = Fin 0.1\<rparr>
       0 [] = Inr ([], Fin 0) \<and>
   \<not> scorable \<lparr>lambda_over = Fin 0.2, lambda_under = Fin 0.3, theta_queue = Fin 0.1\<rparr>
       100 [mk_Venue ''A'' (Fin (10 ^ 307)) 100]"
proof -
  let ?w = "\<lparr>lambda_over = Fin 0.2, lambda_under = Fin 0.3, theta_queue = Fin 0.1\<rparr>"
  have nf: "\<not> feasible 100 [mk_Venue ''A'' (Fin 9) 50]"
    by (simp add: feasible_def enumerate_splits_def extend_splits_def range_step.simps
        step_def mk_Venue_def)
  have fw: "finite_weights ?w" by (simp add: finite_weights_def)
  have n7: "(7::int) \<noteq> 0" by simp
  note t1 = allocate_unscorable[of ?w 100 "[mk_Venue ''A'' (Fin 9) 50]" "''A''" "Fin 9"]
  note t2 = allocate_unscorable[of ?w 7 "[]" "''A''" "Fin 9"]
  note t3 = allocate_unscorable[of ?w 100 "[mk_Venue ''A'' (Fin (10 ^ 307)) 100]" "''A''" "Fin 9"]
  from t1 nf have a1: "allocate ?w 100 [mk_Venue ''A'' (Fin 9) 50] = Inr ([], PInf)" by blast
  from t2 n7 have a2: "allocate ?w 7 [] = Inr ([], PInf)" by blast
  from t2 fw have a3: "allocate ?w 0 [] = Inr ([], Fin 0)" by blast
  from t3 overflowing_venue
  have a4: "\<not> scorable ?w 100 [mk_Venue ''A'' (Fin (10 ^ 307)) 100]" by blast
  from nf a1 n7 a2 fw a3 a4 show ?thesis by blast
qed

section \<open>Properties of a trial and of the grid search\<close>

lemma grid_loop_foldl:
  "grid_loop body s = foldl body s documented_grid"
  by (simp add: grid_loop_def documented_grid_def lambda_over_values_def
      lambda_under_values_def theta_queue_values_def)

lemma documented_grid_length: "length documented_grid = 125"
  by (simp add: documented_grid_def)

lemma documented_grid_first:
  "\<exists>rest. documented_grid =
     \<lparr>lambda_over = Fin 0.2, lambda_under = Fin 0.3, theta_queue = Fin 0.1\<rparr> # rest"
  by (simp add: documented_grid_def)

lemma documented_grid_finite: "\<forall>w \<in> set documented_grid. finite_weights w"
  by (simp add: documented_grid_def finite_weights_def)

lemma search_all_equal:
  "\<forall>w \<in> set ws. t w = Some r \<Longrightarrow>
   foldl (\<lambda>st w. search_update st w (t w)) (Some w0, total_cash r, Some r, n) ws =
     (Some w0, total_cash r, Some r, n + length ws)"
  by (induction ws arbitrary: n) (simp_all add: float_less_irrefl)

lemma test_strategy_some:
  "snapshots_received self \<noteq> [] \<Longrightarrow> \<exists>r. test_strategy self alloc = Some r"
  by (simp add: test_strategy_def split: prod.splits)

lemma test_strategy_none:
  "snapshots_received self = [] \<Longrightarrow> test_strategy self alloc = None"
  by (simp add: test_strategy_def)

lemma allocate_weights_fun:
  "finite_weights w \<Longrightarrow> finite_weights w' \<Longrightarrow> allocate w = allocate w'"
  by (intro ext) (rule allocate_weights)

lemma test_strategy_cash:
  assumes "test_strategy self (allocate w) = Some r"
  shows "float_less (total_cash r) PInf"
proof -
  from assms have ne: "snapshots_received self \<noteq> []"
    by (auto simp: test_strategy_def)
  obtain c f rem where st: "replay (allocate w) (target_shares self)
      (snapshots_received self) (Fin 0, 0, target_shares self) = (c, f, rem)"
    by (metis prod_cases3)
  with assms ne have tc: "total_cash r = c" by (auto simp: test_strategy_def)
  from trial_one_snapshot[of w "target_shares self" "snapshots_received self"] st
  have "c = Fin 0 \<or> float_less c PInf" by auto
  with tc show ?thesis by auto
qed

lemma search_first_min:
  "foldl (\<lambda>st w. search_update st w (t w)) (None, PInf, None, 0) ws = (bp, bc, br, n) \<Longrightarrow>
   (bp = None \<and> bc = PInf \<and> br = None \<and>
    (\<forall>w \<in> set ws. \<forall>r. t w = Some r \<longrightarrow> \<not> float_less (total_cash r) PInf)) \<or>
   (\<exists>pre w post r. ws = pre @ w # post \<and> bp = Some w \<and> bc = total_cash r \<and>
      br = Some r \<and> t w = Some r \<and> float_less (total_cash r) PInf \<and>
      (\<forall>w' \<in> set ws. \<forall>r'. t w' = Some r' \<longrightarrow>
         \<not> float_less (total_cash r') (total_cash r)) \<and>
      (\<forall>w' \<in> set pre. \<forall>r'. t w' = Some r' \<longrightarrow>
         float_less (total_cash r) (total_cash r') \<or> total_cash r' = NaN))"
proof (induction ws arbitrary: bp bc br n rule: rev_induct)
  case Nil
  then show ?case by simp
next
  case (snoc x ws)
  let ?run = "foldl (\<lambda>st w. search_update st w (t w)) (None, PInf, None, 0)"
  obtain bp0 bc0 br0 n0 where st: "?run ws = (bp0, bc0, br0, n0)"
    by (cases "?run ws") simp
  from snoc.prems st have upd: "search_update (bp0, bc0, br0, n0) x (t x) = (bp, bc, br, n)"
    by simp
  from snoc.IH[OF st] consider
    (none) "bp0 = None" "bc0 = PInf" "br0 = None"
      "\<forall>w \<in> set ws. \<forall>r. t w = Some r \<longrightarrow> \<not> float_less (total_cash r) PInf"
  | (some) pre w post r where "ws = pre @ w # post" "bp0 = Some w"
      "bc0 = total_cash r" "br0 = Some r" "t w = Some r" "float_less (total_cash r) PInf"
      "\<forall>w' \<in> set ws. \<forall>r'. t w' = Some r' \<longrightarrow> \<not> float_less (total_cash r') (total_cash r)"
      "\<forall>w' \<in> set pre. \<forall>r'. t w' = Some r' \<longrightarrow>
         float_less (total_cash r) (total_cash r') \<or> total_cash r' = NaN"
    by (elim disjE exE conjE) simp_all
  then show ?case
  proof cases
    case none
    show ?thesis
    proof (cases "\<exists>rx. t x = Some rx \<and> float_less (total_cash rx) PInf")
      case False
      then have nb: "\<And>rx. t x = Some rx \<Longrightarrow> \<not> float_less (total_cash rx) PInf" by blast
      have same: "bp = None" "bc = PInf" "br = None"
      proof -
        show "bp = None" using upd none(1,2,3) nb by (cases "t x") (auto split: if_splits)
        show "bc = PInf" using upd none(1,2,3) nb by (cases "t x") (auto split: if_splits)
        show "br = None" using upd none(1,2,3) nb by (cases "t x") (auto split: if_splits)
      qed
      have "\<forall>w \<in> set (ws @ [x]). \<forall>r. t w = Some r \<longrightarrow> \<not> float_less (total_cash r) PInf"
      proof (intro ballI allI impI)
        fix w' r' assume "w' \<in> set (ws @ [x])" and tw: "t w' = Some r'"
        then have "w' \<in> set ws \<or> w' = x" by auto
        then show "\<not> float_less (total_cash r') PInf"
        proof
          assume "w' \<in> set ws"
          with none(4) tw show ?thesis by simp
        next
          assume "w' = x"
          with nb tw show ?thesis by simp
        qed
      qed
      with same show ?thesis by simp
    next
      case True
      then obtain rx where rx: "t x = Some rx" "float_less (total_cash rx) PInf" by blast
      with upd none have new: "bp = Some x" "bc = total_cash rx" "br = Some rx"
        by simp_all
      have early: "\<And>w' r'. w' \<in> set ws \<Longrightarrow> t w' = Some r' \<Longrightarrow>
          total_cash r' = PInf \<or> total_cash r' = NaN"
        using none(4) by (simp add: not_float_less_PInf[symmetric])
      have pre: "\<forall>w' \<in> set ws. \<forall>r'. t w' = Some r' \<longrightarrow>
          float_less (total_cash rx) (total_cash r') \<or> total_cash r' = NaN"
      proof (intro ballI allI impI)
        fix w' r' assume "w' \<in> set ws" "t w' = Some r'"
        from early[OF this] rx(2)
        show "float_less (total_cash rx) (total_cash r') \<or> total_cash r' = NaN" by auto
      qed
      have all: "\<forall>w' \<in> set (ws @ [x]). \<forall>r'. t w' = Some r' \<longrightarrow>
          \<not> float_less (total_cash r') (total_cash rx)"
      proof (intro ballI allI impI)
        fix w' r' assume "w' \<in> set (ws @ [x])" and tw: "t w' = Some r'"
        then have "w' \<in> set ws \<or> w' = x" by auto
        then show "\<not> float_less (total_cash r') (total_cash rx)"
        proof
          assume "w' \<in> set ws"
          from early[OF this tw] show ?thesis by auto
        next
          assume "w' = x"
          with rx(1) tw show ?thesis by (simp add: float_less_irrefl)
        qed
      qed
      have "\<exists>pre w post r. ws @ [x] = pre @ w # post \<and> bp = Some w \<and> bc = total_cash r \<and>
          br = Some r \<and> t w = Some r \<and> float_less (total_cash r) PInf \<and>
          (\<forall>w' \<in> set (ws @ [x]). \<forall>r'. t w' = Some r' \<longrightarrow>
             \<not> float_less (total_cash r') (total_cash r)) \<and>
          (\<forall>w' \<in> set pre. \<forall>r'. t w' = Some r' \<longrightarrow>
             float_less (total_cash r) (total_cash r') \<or> total_cash r' = NaN)"
        apply (rule exI[of _ ws], rule exI[of _ x], rule exI[of _ "[]"], rule exI[of _ rx])
        using new rx all pre by simp
      then show ?thesis by (rule disjI2)
    qed
  next
    case some
    have keep: "ws @ [x] = pre @ w # (post @ [x])" using some(1) by simp
    show ?thesis
    proof (cases "\<exists>rx. t x = Some rx \<and> float_less (total_cash rx) (total_cash r)")
      case True
      then obtain rx where rx: "t x = Some rx" "float_less (total_cash rx) (total_cash r)"
        by blast
      with upd some have new: "bp = Some x" "bc = total_cash rx" "br = Some rx"
        by simp_all
      from rx(2) have below: "float_less (total_cash rx) PInf" by (rule float_less_PInf)
      have pre: "\<forall>w' \<in> set ws. \<forall>r'. t w' = Some r' \<longrightarrow>
          float_less (total_cash rx) (total_cash r') \<or> total_cash r' = NaN"
      proof (intro ballI allI impI)
        fix w' r' assume "w' \<in> set ws" "t w' = Some r'"
        with some(7) have "\<not> float_less (total_cash r') (total_cash r)" by simp
        with rx(2) show "float_less (total_cash rx) (total_cash r') \<or> total_cash r' = NaN"
          using float_less_le_trans[of "total_cash rx" "total_cash r" "total_cash r'"]
          by blast
      qed
      have all: "\<forall>w' \<in> set (ws @ [x]). \<forall>r'. t w' = Some r' \<longrightarrow>
          \<not> float_less (total_cash r') (total_cash rx)"
      proof (intro ballI allI impI)
        fix w' r' assume "w' \<in> set (ws @ [x])" and tw: "t w' = Some r'"
        then have "w' \<in> set ws \<or> w' = x" by auto
        then show "\<not> float_less (total_cash r') (total_cash rx)"
        proof
          assume "w' \<in> set ws"
          with some(7) tw have "\<not> float_less (total_cash r') (total_cash r)" by simp
          with rx(2) show ?thesis
            using float_less_trans[of "total_cash r'" "total_cash rx" "total_cash r"]
            by blast
        next
          assume "w' = x"
          with rx(1) tw show ?thesis by (simp add: float_less_irrefl)
        qed
      qed
      have "\<exists>pre w post r. ws @ [x] = pre @ w # post \<and> bp = Some w \<and> bc = total_cash r \<and>
          br = Some r \<and> t w = Some r \<and> float_less (total_cash r) PInf \<and>
          (\<forall>w' \<in> set (ws @ [x]). \<forall>r'. t w' = Some r' \<longrightarrow>
             \<not> float_less (total_cash r') (total_cash r)) \<and>
          (\<forall>w' \<in> set pre. \<forall>r'. t w' = Some r' \<longrightarrow>
             float_less (total_cash r) (total_cash r') \<or> total_cash r' = NaN)"
        apply (rule exI[of _ ws], rule exI[of _ x], rule exI[of _ "[]"], rule exI[of _ rx])
        using new rx(1) below all pre by simp
      then show ?thesis by (rule disjI2)
    next
      case False
      then have nb: "\<And>rx. t x = Some rx \<Longrightarrow> \<not> float_less (total_cash rx) (total_cash r)"
        by blast
      have same: "bp = Some w" "bc = total_cash r" "br = Some r"
      proof -
        show "bp = Some w" using upd some(2,3,4) nb by (cases "t x") (auto split: if_splits)
        show "bc = total_cash r" using upd some(2,3,4) nb
          by (cases "t x") (auto split: if_splits)
        show "br = Some r" using upd some(2,3,4) nb by (cases "t x") (auto split: if_splits)
      qed
      have all: "\<forall>w' \<in> set (ws @ [x]). \<forall>r'. t w' = Some r' \<longrightarrow>
          \<not> float_less (total_cash r') (total_cash r)"
      proof (intro ballI allI impI)
        fix w' r' assume "w' \<in> set (ws @ [x])" and tw: "t w' = Some r'"
        then have "w' \<in> set ws \<or> w' = x" by auto
        then show "\<not> float_less (total_cash r') (total_cash r)"
        proof
          assume "w' \<in> set ws"
          with some(7) tw show ?thesis by simp
        next
          assume "w' = x"
          with nb tw show ?thesis by simp
        qed
      qed
      have "\<exists>pre w post r. ws @ [x] = pre @ w # post \<and> bp = Some w \<and> bc = total_cash r \<and>
          br = Some r \<and> t w = Some r \<and> float_less (total_cash r) PInf \<and>
          (\<forall>w' \<in> set (ws @ [x]). \<forall>r'. t w' = Some r' \<longrightarrow>
             \<not> float_less (total_cash r') (total_cash r)) \<and>
          (\<forall>w' \<in> set pre. \<forall>r'. t w' = Some r' \<longrightarrow>
             float_less (total_cash r) (total_cash r') \<or> total_cash r' = NaN)"
        apply (rule exI[of _ pre], rule exI[of _ w], rule exI[of _ "post @ [x]"], rule exI[of _ r])
        using keep same some(5,6) all some(8) by simp
      then show ?thesis by (rule disjI2)
    qed
  qed
qed

lemma parameter_search_first:
  assumes "test_strategy self (allocate \<lparr>lambda_over = Fin 0.2, lambda_under = Fin 0.3,
      theta_queue = Fin 0.1\<rparr>) = Some r"
  shows "parameter_search self =
    (Some \<lparr>lambda_over = Fin 0.2, lambda_under = Fin 0.3, theta_queue = Fin 0.1\<rparr>, Some r)"
proof -
  let ?w1 = "\<lparr>lambda_over = Fin 0.2, lambda_under = Fin 0.3, theta_queue = Fin 0.1\<rparr>"
  let ?t = "\<lambda>w. test_strategy self (allocate w)"
  have f1: "finite_weights ?w1" by (simp add: finite_weights_def)
  have t: "?t w = Some r" if "finite_weights w" for w
    using assms allocate_weights_fun[OF that f1] by simp
  obtain rest where g: "documented_grid = ?w1 # rest"
    using documented_grid_first by blast
  have rest: "\<forall>w \<in> set rest. ?t w = Some r"
    using documented_grid_finite t unfolding g by simp
  from test_strategy_cash[OF assms] have lt: "float_less (total_cash r) PInf" .
  have "grid_loop (\<lambda>st w. search_update st w (?t w)) (None, PInf, None, 0) =
      foldl (\<lambda>st w. search_update st w (?t w)) (Some ?w1, total_cash r, Some r, 1) rest"
    unfolding grid_loop_foldl g using assms lt by simp
  also have "\<dots> = (Some ?w1, total_cash r, Some r, 1 + length rest)"
    using rest by (rule search_all_equal)
  finally show ?thesis by (simp add: parameter_search_def parameter_search_with_def)
qed

section \<open>The calibration's contract\<close>

text \<open>
  Claim C7. When the allocator raises on a snapshot of a trial, the exception is caught:
  the state \<open>(total_cash, shares_filled, remaining_shares)\<close> after that snapshot is the
  state before it, the replay goes on with the next snapshot from that state, and the
  trial still returns its result.
\<close>

theorem snapshot_failure_skipped:
  assumes "replay alloc target pre st0 = (cash, filled, remaining_shares)"
    and "alloc (min remaining_shares target) (valid_venues snapshot) = Inl e"
  shows "replay alloc target (pre @ [snapshot]) st0 = (cash, filled, remaining_shares) \<and>
         replay alloc target (pre @ snapshot # post) st0 =
           replay alloc target post (cash, filled, remaining_shares) \<and>
         (\<exists>r. test_strategy \<lparr>target_shares = target,
                   snapshots_received = pre @ snapshot # post\<rparr> alloc = Some r)"
proof -
  have skip: "replay alloc target (snapshot # rest) (cash, filled, remaining_shares) =
      replay alloc target rest (cash, filled, remaining_shares)" for rest
    using assms(2) by (intro replay_skip) simp
  have "replay alloc target (pre @ [snapshot]) st0 = (cash, filled, remaining_shares)"
    using assms(1) skip[of "[]"] by (simp add: replay_append)
  moreover have "replay alloc target (pre @ snapshot # post) st0 =
      replay alloc target post (cash, filled, remaining_shares)"
    using assms(1) skip[of post] by (simp add: replay_append)
  moreover have "\<exists>r. test_strategy \<lparr>target_shares = target,
      snapshots_received = pre @ snapshot # post\<rparr> alloc = Some r"
    by (simp add: test_strategy_def split: prod.splits)
  ultimately show ?thesis by blast
qed

theorem snapshot_failure_skipped_witness:
  "replay (\<lambda>n vs. if length vs = 1 then Inl OtherException
                   else allocate \<lparr>lambda_over = Fin 0.2, lambda_under = Fin 0.3,
                                   theta_queue = Fin 0.1\<rparr> n vs)
     100 [] (Fin 0, 0, 100) = (Fin 0, 0, 100) \<and>
   (\<lambda>n vs. if length vs = 1 then Inl OtherException
            else allocate \<lparr>lambda_over = Fin 0.2, lambda_under = Fin 0.3,
                            theta_queue = Fin 0.1\<rparr> n vs)
     (min 100 100) (valid_venues [\<lparr>publisher_id = 1, ask_px_00 = Fin 10, ask_sz_00 = 500\<rparr>])
     = Inl OtherException \<and>
   replay (\<lambda>n vs. if length vs = 1 then Inl OtherException
                   else allocate \<lparr>lambda_over = Fin 0.2, lambda_under = Fin 0.3,
                                   theta_queue = Fin 0.1\<rparr> n vs)
     100 ([] @ [[\<lparr>publisher_id = 1, ask_px_00 = Fin 10, ask_sz_00 = 500\<rparr>]]) (Fin 0, 0, 100)
     = (Fin 0, 0, 100) \<and>
   replay (\<lambda>n vs. if length vs = 1 then Inl OtherException
                   else allocate \<lparr>lambda_over = Fin 0.2, lambda_under = Fin 0.3,
                                   theta_queue = Fin 0.1\<rparr> n vs)
     100 ([] @ [\<lparr>publisher_id = 1, ask_px_00 = Fin 10, ask_sz_00 = 500\<rparr>]
             # [[\<lparr>publisher_id = 1, ask_px_00 = Fin 9, ask_sz_00 = 40\<rparr>,
                 \<lparr>publisher_id = 2, ask_px_00 = Fin 10, ask_sz_00 = 500\<rparr>]]) (Fin 0, 0, 100)
     = (Fin 1000.3, 100, 0)"
proof -
  let ?alloc = "\<lambda>n vs. if length vs = 1 then Inl OtherException
      else allocate \<lparr>lambda_over = Fin 0.2, lambda_under = Fin 0.3, theta_queue = Fin 0.1\<rparr> n vs"
  let ?s = "[\<lparr>publisher_id = 1, ask_px_00 = Fin 10, ask_sz_00 = 500\<rparr>]"
  let ?post = "[[\<lparr>publisher_id = 1, ask_px_00 = Fin 9, ask_sz_00 = 40\<rparr>,
                 \<lparr>publisher_id = 2, ask_px_00 = Fin 10, ask_sz_00 = 500\<rparr>]]"
  have h1: "replay ?alloc 100 [] (Fin 0, 0, 100) = (Fin 0, 0, 100)" by simp
  have h2: "?alloc (min 100 100) (valid_venues ?s) = Inl OtherException" by simp
  have next_one: "replay ?alloc 100 ?post (Fin 0, 0, 100) = (Fin 1000.3, 100, 0)"
    by (simp add: eval_defs)
  note t = snapshot_failure_skipped[OF h1 h2, of ?post]
  from t have a: "replay ?alloc 100 ([] @ [?s]) (Fin 0, 0, 100) = (Fin 0, 0, 100)"
    by (elim conjE)
  from t have "replay ?alloc 100 ([] @ ?s # ?post) (Fin 0, 0, 100) =
      replay ?alloc 100 ?post (Fin 0, 0, 100)"
    by (elim conjE)
  with next_one have b: "replay ?alloc 100 ([] @ ?s # ?post) (Fin 0, 0, 100) =
      (Fin 1000.3, 100, 0)"
    by (simp only:)
  from h1 h2 a b show ?thesis by (intro conjI)
qed

text \<open>
  Claim C10. In a trial, a snapshot on which \<open>allocate\<close> returns a non-empty split
  fills the whole remaining order: each \<open>min(allocation_i, ask_size_i, remaining)\<close> is
  \<open>allocation_i\<close>, the remaining quantity becomes 0 and the snapshots after it change
  nothing. So a trial either fills nothing or takes all its fills from one snapshot,
  and its cash is then the cash of that split.
\<close>

theorem first_fill_completes_order:
  assumes "0 < remaining_shares" and "remaining_shares \<le> target"
    and "allocate w (min remaining_shares target) (valid_venues snapshot) =
           Inr (allocation, expected_cost)"
    and "allocation \<noteq> []"
  shows "(\<forall>i < length allocation.
            min (min (allocation ! i) (ask_size (valid_venues snapshot ! i)))
                (remaining_shares - sum_list (take i allocation)) = allocation ! i) \<and>
         fill_loop (valid_venues snapshot) 0 allocation (cash, filled, remaining_shares) =
           (fill_cash cash allocation (valid_venues snapshot), filled + remaining_shares, 0) \<and>
         replay (allocate w) target (snapshot # rest) (cash, filled, remaining_shares) =
           (fill_cash cash allocation (valid_venues snapshot), filled + remaining_shares, 0) \<and>
         fill_cash (Fin 0) allocation (valid_venues snapshot) =
           cash_of allocation (valid_venues snapshot) \<and>
         (replay (allocate w) target snaps (Fin 0, 0, target) = (Fin 0, 0, target) \<or>
          (\<exists>pre s post a c. snaps = pre @ s # post \<and>
             replay (allocate w) target pre (Fin 0, 0, target) = (Fin 0, 0, target) \<and>
             allocate w target (valid_venues s) = Inr (a, c) \<and> a \<noteq> [] \<and>
             replay (allocate w) target snaps (Fin 0, 0, target) =
               (cash_of a (valid_venues s), target, 0)))"
proof (intro conjI allI impI)
  note f = replay_single_fill[OF assms]
  fix i assume i: "i < length allocation"
  from f(3) i have "entry_ok (allocation ! i) (valid_venues snapshot ! i)"
    by (simp add: list_all2_nthD)
  moreover from entry_le_remaining[OF f(3) _ i, of remaining_shares] f(4)
  have "allocation ! i \<le> remaining_shares - sum_list (take i allocation)" by simp
  ultimately show "min (min (allocation ! i) (ask_size (valid_venues snapshot ! i)))
      (remaining_shares - sum_list (take i allocation)) = allocation ! i"
    by (simp add: entry_ok_def)
next
  show "fill_loop (valid_venues snapshot) 0 allocation (cash, filled, remaining_shares) =
      (fill_cash cash allocation (valid_venues snapshot), filled + remaining_shares, 0)"
    by (rule replay_single_fill(1)[OF assms])
next
  show "replay (allocate w) target (snapshot # rest) (cash, filled, remaining_shares) =
      (fill_cash cash allocation (valid_venues snapshot), filled + remaining_shares, 0)"
    by (rule replay_single_fill(2)[OF assms])
next
  have r0: "in_range (Fin 0)" using threshold_pos by simp
  from fill_cash_of_allocate[OF assms(3,4) r0]
  show "fill_cash (Fin 0) allocation (valid_venues snapshot) =
      cash_of allocation (valid_venues snapshot)"
    by (simp add: cash_of_def)
next
  from trial_one_snapshot[of w target snaps]
  show "replay (allocate w) target snaps (Fin 0, 0, target) = (Fin 0, 0, target) \<or>
      (\<exists>pre s post a c. snaps = pre @ s # post \<and>
         replay (allocate w) target pre (Fin 0, 0, target) = (Fin 0, 0, target) \<and>
         allocate w target (valid_venues s) = Inr (a, c) \<and> a \<noteq> [] \<and>
         replay (allocate w) target snaps (Fin 0, 0, target) =
           (cash_of a (valid_venues s), target, 0))"
    by blast
qed

theorem first_fill_completes_order_witness:
  "(0::int) < 100 \<and> (100::int) \<le> 100 \<and>
   allocate \<lparr>lambda_over = Fin 0.2, lambda_under = Fin 0.3, theta_queue = Fin 0.1\<rparr>
     (min 100 100)
     (valid_venues [\<lparr>publisher_id = 1, ask_px_00 = Fin 9, ask_sz_00 = 40\<rparr>,
                    \<lparr>publisher_id = 2, ask_px_00 = Fin 10, ask_sz_00 = 500\<rparr>])
     = Inr ([0, 100], Fin 1000.3) \<and>
   [0, 100] \<noteq> ([] :: int list) \<and>
   replay (allocate \<lparr>lambda_over = Fin 0.2, lambda_under = Fin 0.3, theta_queue = Fin 0.1\<rparr>)
     100
     ([\<lparr>publisher_id = 1, ask_px_00 = Fin 9, ask_sz_00 = 40\<rparr>,
       \<lparr>publisher_id = 2, ask_px_00 = Fin 10, ask_sz_00 = 500\<rparr>]
      # [[\<lparr>publisher_id = 2, ask_px_00 = Fin 8, ask_sz_00 = 700\<rparr>]]) (Fin 0, 0, 100)
     = (Fin 1000.3, 100, 0)"
proof -
  let ?w = "\<lparr>lambda_over = Fin 0.2, lambda_under = Fin 0.3, theta_queue = Fin 0.1\<rparr>"
  let ?s = "[\<lparr>publisher_id = 1, ask_px_00 = Fin 9, ask_sz_00 = 40\<rparr>,
             \<lparr>publisher_id = 2, ask_px_00 = Fin 10, ask_sz_00 = 500\<rparr>]"
  have h1: "(0::int) < 100" by simp
  have h2: "(100::int) \<le> 100" by simp
  have h3: "allocate ?w (min 100 100) (valid_venues ?s) = Inr ([0, 100], Fin 1000.3)"
    by (simp add: eval_defs)
  have h4: "[0, 100] \<noteq> ([] :: int list)" by simp
  have c: "fill_cash (Fin 0) [0, 100] (valid_venues ?s) = Fin 1000.3"
    by (simp add: mk_Venue_def float_of_int_def fl_small)
  note t = first_fill_completes_order[OF h1 h2 h3 h4,
      of "Fin 0" 0 "[[\<lparr>publisher_id = 2, ask_px_00 = Fin 8, ask_sz_00 = 700\<rparr>]]" "[]"]
  from t[THEN conjunct2, THEN conjunct2, THEN conjunct1] have "replay (allocate ?w) 100
      (?s # [[\<lparr>publisher_id = 2, ask_px_00 = Fin 8, ask_sz_00 = 700\<rparr>]]) (Fin 0, 0, 100)
      = (fill_cash (Fin 0) [0, 100] (valid_venues ?s), 0 + 100, 0)" .
  then have "replay (allocate ?w) 100
      (?s # [[\<lparr>publisher_id = 2, ask_px_00 = Fin 8, ask_sz_00 = 700\<rparr>]]) (Fin 0, 0, 100)
      = (Fin 1000.3, 100, 0)"
    unfolding c by simp
  with h1 h2 h3 h4 show ?thesis by blast
qed

text \<open>
  Claim C9. The result of a trial does not depend on the finite weights it is run with,
  so the 125 trials of a calibration realise the same result, and with at least one
  snapshot \<open>parameter_search\<close> returns the first grid point, 0.2, 0.3, 0.1, with that
  result.
\<close>

theorem calibration_first_grid_point:
  "(finite_weights w \<and> finite_weights w' \<longrightarrow>
      test_strategy self (allocate w) = test_strategy self (allocate w')) \<and>
   (snapshots_received self \<noteq> [] \<longrightarrow>
      (\<exists>r. (\<forall>w. finite_weights w \<longrightarrow> test_strategy self (allocate w) = Some r) \<and>
           (\<forall>w \<in> set documented_grid. test_strategy self (allocate w) = Some r) \<and>
           parameter_search self =
             (Some \<lparr>lambda_over = Fin 0.2, lambda_under = Fin 0.3, theta_queue = Fin 0.1\<rparr>,
              Some r)))"
proof (intro conjI impI)
  assume "finite_weights w \<and> finite_weights w'"
  then have "allocate w = allocate w'" by (simp add: allocate_weights_fun)
  then show "test_strategy self (allocate w) = test_strategy self (allocate w')"
    by simp
next
  let ?w1 = "\<lparr>lambda_over = Fin 0.2, lambda_under = Fin 0.3, theta_queue = Fin 0.1\<rparr>"
  have f1: "finite_weights ?w1" by (simp add: finite_weights_def)
  assume "snapshots_received self \<noteq> []"
  from test_strategy_some[OF this] obtain r
    where r: "test_strategy self (allocate ?w1) = Some r" by blast
  have all: "test_strategy self (allocate w) = Some r" if "finite_weights w" for w
    using r allocate_weights_fun[OF that f1] by simp
  have "(\<forall>w. finite_weights w \<longrightarrow> test_strategy self (allocate w) = Some r) \<and>
      (\<forall>w \<in> set documented_grid. test_strategy self (allocate w) = Some r) \<and>
      parameter_search self = (Some ?w1, Some r)"
    using all documented_grid_finite parameter_search_first[OF r] by simp
  then show "\<exists>r. (\<forall>w. finite_weights w \<longrightarrow> test_strategy self (allocate w) = Some r) \<and>
      (\<forall>w \<in> set documented_grid. test_strategy self (allocate w) = Some r) \<and>
      parameter_search self = (Some ?w1, Some r)" by (rule exI)
qed

theorem calibration_first_grid_point_witness:
  "snapshots_received \<lparr>target_shares = 100, snapshots_received =
       [[\<lparr>publisher_id = 1, ask_px_00 = Fin 10, ask_sz_00 = 500\<rparr>]]\<rparr> \<noteq> [] \<and>
   parameter_search \<lparr>target_shares = 100, snapshots_received =
       [[\<lparr>publisher_id = 1, ask_px_00 = Fin 10, ask_sz_00 = 500\<rparr>]]\<rparr> =
     (Some \<lparr>lambda_over = Fin 0.2, lambda_under = Fin 0.3, theta_queue = Fin 0.1\<rparr>,
      Some \<lparr>total_cash = Fin 1000.3, shares_filled = 100, avg_fill_px = Fin 10.003\<rparr>)"
proof -
  let ?self = "\<lparr>target_shares = 100, snapshots_received =
       [[\<lparr>publisher_id = 1, ask_px_00 = Fin 10, ask_sz_00 = 500\<rparr>]]\<rparr>"
  let ?w1 = "\<lparr>lambda_over = Fin 0.2, lambda_under = Fin 0.3, theta_queue = Fin 0.1\<rparr>"
  have h: "snapshots_received ?self \<noteq> []" by simp
  have f1: "finite_weights ?w1" by (simp add: finite_weights_def)
  have t: "test_strategy ?self (allocate ?w1) =
      Some \<lparr>total_cash = Fin 1000.3, shares_filled = 100, avg_fill_px = Fin 10.003\<rparr>"
    by (simp add: test_strategy_def eval_defs)
  from calibration_first_grid_point[of ?w1 ?w1 ?self] h
  obtain r where a: "\<forall>w. finite_weights w \<longrightarrow> test_strategy ?self (allocate w) = Some r"
    and p: "parameter_search ?self = (Some ?w1, Some r)" by blast
  from a f1 have "test_strategy ?self (allocate ?w1) = Some r" by blast
  with t p h show ?thesis by simp
qed

text \<open>
  Claim C4 as it is stated fails on an empty snapshot list: every trial returns \<open>None\<close>,
  no triple is selected, and \<open>parameter_search\<close> returns the empty \<open>best_params\<close> and
  \<open>None\<close>.
\<close>

theorem parameter_search_empty_counterexample:
  "parameter_search \<lparr>target_shares = 5000, snapshots_received = []\<rparr> = (None, None)"
  by (simp add: parameter_search_def parameter_search_with_def grid_loop_foldl
      documented_grid_def test_strategy_def)

text \<open>
  Claim C4, amended. The loops of \<open>parameter_search\<close> run their body on the 125 triples
  of the documented grid, in the documented nesting order. Whatever the trials return,
  the search returns the first triple of lowest realised total cash among the trials
  whose total cash compares below \<open>+infinity\<close>: no trial realised less, and every trial
  before it realised strictly more or NaN. It returns no triple exactly when no trial
  returned such a result, which is the case of an empty snapshot list; with a snapshot
  it returns a triple. The selection reads \<open>total_cash\<close>, not the allocator's cost.
\<close>

theorem parameter_search_selects_lowest_cash:
  "grid_loop body s = foldl body s documented_grid \<and>
   length documented_grid = 125 \<and>
   parameter_search self = parameter_search_with (\<lambda>w. test_strategy self (allocate w)) \<and>
   (parameter_search_with trial = (best_params, best_result) \<longrightarrow>
      (best_params = None \<and> best_result = None \<and>
       (\<forall>w \<in> set documented_grid. \<forall>r. trial w = Some r \<longrightarrow>
          \<not> float_less (total_cash r) PInf)) \<or>
      (\<exists>pre w post r. documented_grid = pre @ w # post \<and>
         best_params = Some w \<and> best_result = Some r \<and> trial w = Some r \<and>
         float_less (total_cash r) PInf \<and>
         (\<forall>w' \<in> set documented_grid. \<forall>r'. trial w' = Some r' \<longrightarrow>
            \<not> float_less (total_cash r') (total_cash r)) \<and>
         (\<forall>w' \<in> set pre. \<forall>r'. trial w' = Some r' \<longrightarrow>
            float_less (total_cash r) (total_cash r') \<or> total_cash r' = NaN))) \<and>
   (snapshots_received self = [] \<longrightarrow> parameter_search self = (None, None)) \<and>
   (snapshots_received self \<noteq> [] \<longrightarrow> (\<exists>w r. parameter_search self = (Some w, Some r)))"
proof (intro conjI impI)
  show "grid_loop body s = foldl body s documented_grid" by (rule grid_loop_foldl)
  show "length documented_grid = 125" by (rule documented_grid_length)
  show "parameter_search self = parameter_search_with (\<lambda>w. test_strategy self (allocate w))"
    by (rule parameter_search_def)
next
  assume a: "parameter_search_with trial = (best_params, best_result)"
  let ?run = "foldl (\<lambda>st w. search_update st w (trial w)) (None, PInf, None, 0) documented_grid"
  obtain bp bc br n where run: "?run = (bp, bc, br, n)" by (cases ?run) simp
  with a have res: "bp = best_params" "br = best_result"
    by (simp_all add: parameter_search_with_def grid_loop_foldl)
  from search_first_min[OF run]
  show "(best_params = None \<and> best_result = None \<and>
       (\<forall>w \<in> set documented_grid. \<forall>r. trial w = Some r \<longrightarrow>
          \<not> float_less (total_cash r) PInf)) \<or>
      (\<exists>pre w post r. documented_grid = pre @ w # post \<and>
         best_params = Some w \<and> best_result = Some r \<and> trial w = Some r \<and>
         float_less (total_cash r) PInf \<and>
         (\<forall>w' \<in> set documented_grid. \<forall>r'. trial w' = Some r' \<longrightarrow>
            \<not> float_less (total_cash r') (total_cash r)) \<and>
         (\<forall>w' \<in> set pre. \<forall>r'. trial w' = Some r' \<longrightarrow>
            float_less (total_cash r) (total_cash r') \<or> total_cash r' = NaN))"
  proof
    assume "bp = None \<and> bc = PInf \<and> br = None \<and>
      (\<forall>w \<in> set documented_grid. \<forall>r. trial w = Some r \<longrightarrow> \<not> float_less (total_cash r) PInf)"
    with res show ?thesis by simp
  next
    assume "\<exists>pre w post r. documented_grid = pre @ w # post \<and> bp = Some w \<and>
      bc = total_cash r \<and> br = Some r \<and> trial w = Some r \<and> float_less (total_cash r) PInf \<and>
      (\<forall>w' \<in> set documented_grid. \<forall>r'. trial w' = Some r' \<longrightarrow>
         \<not> float_less (total_cash r') (total_cash r)) \<and>
      (\<forall>w' \<in> set pre. \<forall>r'. trial w' = Some r' \<longrightarrow>
         float_less (total_cash r) (total_cash r') \<or> total_cash r' = NaN)"
    then obtain pre w post r where *: "documented_grid = pre @ w # post" "bp = Some w"
      "br = Some r" "trial w = Some r" "float_less (total_cash r) PInf"
      "\<forall>w' \<in> set documented_grid. \<forall>r'. trial w' = Some r' \<longrightarrow>
         \<not> float_less (total_cash r') (total_cash r)"
      "\<forall>w' \<in> set pre. \<forall>r'. trial w' = Some r' \<longrightarrow>
         float_less (total_cash r) (total_cash r') \<or> total_cash r' = NaN"
      by (elim exE conjE)
    have "\<exists>pre w post r. documented_grid = pre @ w # post \<and>
         best_params = Some w \<and> best_result = Some r \<and> trial w = Some r \<and>
         float_less (total_cash r) PInf \<and>
         (\<forall>w' \<in> set documented_grid. \<forall>r'. trial w' = Some r' \<longrightarrow>
            \<not> float_less (total_cash r') (total_cash r)) \<and>
         (\<forall>w' \<in> set pre. \<forall>r'. trial w' = Some r' \<longrightarrow>
            float_less (total_cash r) (total_cash r') \<or> total_cash r' = NaN)"
      apply (rule exI[of _ pre], rule exI[of _ w], rule exI[of _ post], rule exI[of _ r])
      using * res by (intro conjI) simp_all
    then show ?thesis by (rule disjI2)
  qed
next
  assume "snapshots_received self = []"
  then have "\<And>w. test_strategy self (allocate w) = None" by (rule test_strategy_none)
  then show "parameter_search self = (None, None)"
    by (simp add: parameter_search_def parameter_search_with_def grid_loop_foldl
        documented_grid_def)
next
  let ?w1 = "\<lparr>lambda_over = Fin 0.2, lambda_under = Fin 0.3, theta_queue = Fin 0.1\<rparr>"
  assume "snapshots_received self \<noteq> []"
  from test_strategy_some[OF this] obtain r
    where "test_strategy self (allocate ?w1) = Some r" by blast
  from parameter_search_first[OF this]
  show "\<exists>w r. parameter_search self = (Some w, Some r)" by blast
qed

theorem parameter_search_selects_lowest_cash_witness:
  "parameter_search_with
     (\<lambda>w. if theta_queue w = Fin 0.1 then None
          else if theta_queue w = Fin 0.3
            then Some \<lparr>total_cash = NaN, shares_filled = 0, avg_fill_px = Fin 0\<rparr>
          else if theta_queue w = Fin 0.7
            then Some \<lparr>total_cash = Fin 1, shares_filled = 1, avg_fill_px = Fin 1\<rparr>
          else Some \<lparr>total_cash = Fin 2, shares_filled = 1, avg_fill_px = Fin 2\<rparr>) =
     (Some \<lparr>lambda_over = Fin 0.2, lambda_under = Fin 0.3, theta_queue = Fin 0.7\<rparr>,
      Some \<lparr>total_cash = Fin 1, shares_filled = 1, avg_fill_px = Fin 1\<rparr>) \<and>
   \<lparr>lambda_over = Fin 0.2, lambda_under = Fin 0.3, theta_queue = Fin 0.7\<rparr>
     \<in> set documented_grid \<and>
   float_less (total_cash \<lparr>total_cash = Fin 1, shares_filled = 1, avg_fill_px = Fin 1\<rparr>) PInf \<and>
   snapshots_received \<lparr>target_shares = 5000, snapshots_received = []\<rparr> = [] \<and>
   parameter_search \<lparr>target_shares = 5000, snapshots_received = []\<rparr> = (None, None)"
proof -
  let ?T = "\<lambda>w. if theta_queue w = Fin 0.1 then None
          else if theta_queue w = Fin 0.3
            then Some \<lparr>total_cash = NaN, shares_filled = 0, avg_fill_px = Fin 0\<rparr>
          else if theta_queue w = Fin 0.7
            then Some \<lparr>total_cash = Fin 1, shares_filled = 1, avg_fill_px = Fin 1\<rparr>
          else Some \<lparr>total_cash = Fin 2, shares_filled = 1, avg_fill_px = Fin 2\<rparr>"
  let ?w = "\<lparr>lambda_over = Fin 0.2, lambda_under = Fin 0.3, theta_queue = Fin 0.7\<rparr>"
  let ?r = "\<lparr>total_cash = Fin 1, shares_filled = 1, avg_fill_px = Fin 1\<rparr>"
  let ?self = "\<lparr>target_shares = 5000, snapshots_received = []\<rparr>"
  have h: "parameter_search_with ?T = (Some ?w, Some ?r)"
    by (simp add: parameter_search_with_def grid_loop_def lambda_over_values_def
        lambda_under_values_def theta_queue_values_def)
  have e: "snapshots_received ?self = []" by simp
  note sel = parameter_search_selects_lowest_cash[where trial = ?T
      and best_params = "Some ?w" and best_result = "Some ?r" and self = ?self
      and body = "\<lambda>s w. s" and s = "0 :: nat"]
  from sel e have p: "parameter_search ?self = (None, None)" by (elim conjE) simp
  from sel h have "(Some ?w = None \<and> Some ?r = None \<and>
       (\<forall>w \<in> set documented_grid. \<forall>r. ?T w = Some r \<longrightarrow>
          \<not> float_less (total_cash r) PInf)) \<or>
      (\<exists>pre w post r. documented_grid = pre @ w # post \<and>
         Some ?w = Some w \<and> Some ?r = Some r \<and> ?T w = Some r \<and>
         float_less (total_cash r) PInf \<and>
         (\<forall>w' \<in> set documented_grid. \<forall>r'. ?T w' = Some r' \<longrightarrow>
            \<not> float_less (total_cash r') (total_cash r)) \<and>
         (\<forall>w' \<in> set pre. \<forall>r'. ?T w' = Some r' \<longrightarrow>
            float_less (total_cash r) (total_cash r') \<or> total_cash r' = NaN))"
    by (elim conjE) simp
  then obtain pre w post r where g: "documented_grid = pre @ w # post"
    and ew: "Some ?w = Some w" and er: "Some ?r = Some r"
    and lt: "float_less (total_cash r) PInf"
    by (elim disjE exE conjE) simp_all
  have "w \<in> set (pre @ w # post)" by simp
  then have "w \<in> set documented_grid" by (simp only: g[symmetric])
  moreover from ew have "w = ?w" by simp
  ultimately have m: "?w \<in> set documented_grid" by (simp only:)
  from er have "r = ?r" by simp
  with lt have l: "float_less (total_cash ?r) PInf" by (simp only:)
  from h m l e p show ?thesis by (intro conjI)
qed

section \<open>Properties of \<open>create_venues_from_snapshot\<close>\<close>

lemma digit_char_code: "d < 10 \<Longrightarrow> (of_char (digit_char d) :: nat) = 48 + d"
  by (simp add: digit_char_def)

lemma str_nat_val:
  "foldl (\<lambda>a c. 10 * a + (of_char c - 48)) (0::nat) (str_nat n) = n"
proof (induction n rule: str_nat.induct)
  case (1 n)
  show ?case
  proof (cases "n < 10")
    case True
    then show ?thesis by (subst str_nat.simps) (simp add: digit_char_code)
  next
    case False
    from "1.IH"[OF False] False show ?thesis
      by (subst str_nat.simps) (simp add: digit_char_code)
  qed
qed

lemma str_nat_inj: "str_nat m = str_nat n \<Longrightarrow> m = n"
  by (metis str_nat_val)

lemma digit_char_not_minus: "d < 10 \<Longrightarrow> digit_char d \<noteq> CHR ''-''"
proof
  assume "d < 10" and "digit_char d = CHR ''-''"
  then have "(of_char (digit_char d) :: nat) = of_char CHR ''-''" by simp
  with \<open>d < 10\<close> show False by (simp add: digit_char_code)
qed

lemma str_nat_no_minus: "CHR ''-'' \<notin> set (str_nat n)"
proof (induction n rule: str_nat.induct)
  case (1 n)
  show ?case
  proof (cases "n < 10")
    case True
    then show ?thesis
      by (subst str_nat.simps) (use digit_char_not_minus[of n] in auto)
  next
    case False
    from "1.IH"[OF False] show ?thesis
      by (subst str_nat.simps) (use False digit_char_not_minus[of "n mod 10"] in auto)
  qed
qed

lemma str_int_inj: "str_int i = str_int j \<Longrightarrow> i = j"
proof -
  assume e: "str_int i = str_int j"
  have m: "CHR ''-'' # xs \<noteq> str_nat n" for xs n
    using str_nat_no_minus[of n] by (metis list.set_intros(1))
  show ?thesis
  proof (cases "i < 0")
    case True
    note i = this
    show ?thesis
    proof (cases "j < 0")
      case True
      with i e have "str_nat (nat (- i)) = str_nat (nat (- j))" by (simp add: str_int_def)
      then have "nat (- i) = nat (- j)" by (rule str_nat_inj)
      with i True show ?thesis by simp
    next
      case False
      with i e m show ?thesis by (simp add: str_int_def)
    qed
  next
    case False
    note i = this
    show ?thesis
    proof (cases "j < 0")
      case True
      with i e m[of "str_nat (nat (- j))" "nat i"] show ?thesis by (simp add: str_int_def)
    next
      case False
      with i e have "str_nat (nat i) = str_nat (nat j)" by (simp add: str_int_def)
      then have "nat i = nat j" by (rule str_nat_inj)
      with i False show ?thesis by simp
    qed
  qed
qed

lemma collect_keys:
  "fst ` set (collect_venue_data data vd) =
     fst ` set vd \<union> (\<lambda>r. str_int (publisher_id r)) ` set data"
proof (induction data arbitrary: vd)
  case Nil
  then show ?case by simp
next
  case (Cons r rest)
  show ?case
  proof (cases "str_int (publisher_id r) \<in> fst ` set vd")
    case True
    then show ?thesis using Cons.IH[of vd] by (auto simp: Let_def)
  next
    case False
    then show ?thesis
      using Cons.IH[of "vd @ [(str_int (publisher_id r), ask_px_00 r, ask_sz_00 r)]"]
      by (auto simp: Let_def)
  qed
qed

lemma collect_distinct:
  "distinct (map fst vd) \<Longrightarrow> distinct (map fst (collect_venue_data data vd))"
proof (induction data arbitrary: vd)
  case Nil
  then show ?case by simp
next
  case (Cons r rest)
  show ?case
  proof (cases "str_int (publisher_id r) \<in> fst ` set vd")
    case True
    then show ?thesis using Cons.IH[OF Cons.prems] by (simp add: Let_def)
  next
    case False
    with Cons.prems
    have "distinct (map fst (vd @ [(str_int (publisher_id r), ask_px_00 r, ask_sz_00 r)]))"
      by simp
    from Cons.IH[OF this] False show ?thesis by (simp add: Let_def)
  qed
qed

lemma collect_entries:
  "(k, a, s) \<in> set (collect_venue_data data vd) \<Longrightarrow>
   (k, a, s) \<in> set vd \<or>
   (k \<notin> fst ` set vd \<and>
    (\<exists>r. find (\<lambda>r. str_int (publisher_id r) = k) data = Some r \<and>
         a = ask_px_00 r \<and> s = ask_sz_00 r))"
proof (induction data arbitrary: vd)
  case Nil
  then show ?case by simp
next
  case (Cons r rest)
  show ?case
  proof (cases "str_int (publisher_id r) \<in> fst ` set vd")
    case True
    with Cons.prems have "(k, a, s) \<in> set (collect_venue_data rest vd)"
      by (simp add: Let_def)
    from Cons.IH[OF this] show ?thesis
    proof
      assume "(k, a, s) \<in> set vd"
      then show ?thesis by simp
    next
      assume *: "k \<notin> fst ` set vd \<and>
        (\<exists>r. find (\<lambda>r. str_int (publisher_id r) = k) rest = Some r \<and>
             a = ask_px_00 r \<and> s = ask_sz_00 r)"
      with True have "str_int (publisher_id r) \<noteq> k" by auto
      with * show ?thesis by simp
    qed
  next
    case False
    let ?new = "(str_int (publisher_id r), ask_px_00 r, ask_sz_00 r)"
    from False Cons.prems have "(k, a, s) \<in> set (collect_venue_data rest (vd @ [?new]))"
      by (simp add: Let_def)
    from Cons.IH[OF this] show ?thesis
    proof
      assume "(k, a, s) \<in> set (vd @ [?new])"
      then have "(k, a, s) \<in> set vd \<or> (k, a, s) = ?new" by auto
      then show ?thesis
      proof
        assume "(k, a, s) \<in> set vd"
        then show ?thesis by simp
      next
        assume "(k, a, s) = ?new"
        with False show ?thesis by simp
      qed
    next
      assume *: "k \<notin> fst ` set (vd @ [?new]) \<and>
        (\<exists>r. find (\<lambda>r. str_int (publisher_id r) = k) rest = Some r \<and>
             a = ask_px_00 r \<and> s = ask_sz_00 r)"
      then have "k \<notin> fst ` set vd" and "str_int (publisher_id r) \<noteq> k" by auto
      with * show ?thesis by simp
    qed
  qed
qed

lemma find_by_key:
  "find (\<lambda>r. str_int (publisher_id r) = str_int p) data = first_record p data"
  unfolding first_record_def
  by (induction data) (auto dest: str_int_inj)

lemma create_ids:
  "map id' (create_venues_from_snapshot data) = map fst (collect_venue_data data [])"
  by (simp add: create_venues_from_snapshot_def mk_Venue_def split_def comp_def)

lemma create_distinct: "distinct (map id' (create_venues_from_snapshot data))"
  unfolding create_ids by (rule collect_distinct) simp

lemma create_length:
  "length (create_venues_from_snapshot data) = card (publisher_id ` set data)"
proof -
  have "length (create_venues_from_snapshot data) =
      length (map id' (create_venues_from_snapshot data))" by simp
  also have "\<dots> = card (set (map id' (create_venues_from_snapshot data)))"
    using create_distinct[of data] by (simp only: distinct_card)
  also have "set (map id' (create_venues_from_snapshot data)) =
      str_int ` publisher_id ` set data"
    unfolding create_ids using collect_keys[of data "[]"] by (simp add: image_image)
  also have "card (str_int ` publisher_id ` set data) = card (publisher_id ` set data)"
    by (rule card_image) (auto intro!: inj_onI dest: str_int_inj)
  finally show ?thesis .
qed

lemma create_member:
  assumes "v \<in> set (create_venues_from_snapshot data)"
  shows "\<exists>r. first_record (publisher_id r) data = Some r \<and>
    v = mk_Venue (str_int (publisher_id r)) (ask_px_00 r) (ask_sz_00 r)"
proof -
  from assms obtain k a s where in_c: "(k, a, s) \<in> set (collect_venue_data data [])"
    and v: "v = mk_Venue k a s"
    by (auto simp: create_venues_from_snapshot_def)
  from collect_entries[OF in_c] obtain r
    where f: "find (\<lambda>r. str_int (publisher_id r) = k) data = Some r"
      and a: "a = ask_px_00 r" and s: "s = ask_sz_00 r" by auto
  from f have k: "str_int (publisher_id r) = k" by (auto simp: find_Some_iff)
  with f have "first_record (publisher_id r) data = Some r"
    using find_by_key[of "publisher_id r" data] by simp
  with v a s k show ?thesis by blast
qed

lemma create_first:
  assumes "first_record p data = Some r"
  shows "mk_Venue (str_int p) (ask_px_00 r) (ask_sz_00 r)
           \<in> set (create_venues_from_snapshot data)"
proof -
  from assms have r: "r \<in> set data" "publisher_id r = p"
    by (auto simp: first_record_def find_Some_iff)
  then have "str_int p \<in> fst ` set (collect_venue_data data [])"
    unfolding collect_keys by auto
  then obtain a s where in_c: "(str_int p, a, s) \<in> set (collect_venue_data data [])"
    by force
  from collect_entries[OF in_c] obtain r'
    where f: "find (\<lambda>r. str_int (publisher_id r) = str_int p) data = Some r'"
      and a: "a = ask_px_00 r'" and s: "s = ask_sz_00 r'" by auto
  from f assms have "r' = r" by (simp add: find_by_key)
  with in_c a s show ?thesis
    by (force simp: create_venues_from_snapshot_def)
qed

lemma filter_distinct_key:
  "distinct (map f xs) \<Longrightarrow> x \<in> set xs \<Longrightarrow> filter (\<lambda>v. f v = f x) xs = [x]"
proof (induction xs)
  case Nil
  then show ?case by simp
next
  case (Cons y ys)
  show ?case
  proof (cases "x = y")
    case True
    from Cons.prems(1) have "f y \<notin> f ` set ys" by simp
    with True have "\<forall>v \<in> set ys. f v \<noteq> f x" by (metis imageI)
    then have "filter (\<lambda>v. f v = f x) ys = []" by (simp add: filter_empty_conv)
    with True show ?thesis by simp
  next
    case False
    with Cons.prems have "x \<in> set ys" "f y \<noteq> f x" by auto
    with Cons.IH Cons.prems(1) show ?thesis by simp
  qed
qed

section \<open>The snapshot model's contract\<close>

text \<open>
  Claim C8. \<open>create_venues_from_snapshot\<close> returns one venue for each distinct
  \<open>publisher_id\<close> of the records: as many venues as distinct identifiers, with distinct
  ids, and the venue of an identifier carries the price and size of the first record
  with that identifier. Every venue returned is built from such a first record, so a
  later record of the same identifier changes nothing.
\<close>

theorem create_venues_first_seen:
  "length (create_venues_from_snapshot data) = card (publisher_id ` set data) \<and>
   distinct (map id' (create_venues_from_snapshot data)) \<and>
   (first_record p data = Some r \<longrightarrow>
      filter (\<lambda>v. id' v = str_int p) (create_venues_from_snapshot data) =
        [mk_Venue (str_int p) (ask_px_00 r) (ask_sz_00 r)]) \<and>
   (v \<in> set (create_venues_from_snapshot data) \<longrightarrow>
      (\<exists>r. first_record (publisher_id r) data = Some r \<and>
           v = mk_Venue (str_int (publisher_id r)) (ask_px_00 r) (ask_sz_00 r)))"
proof (intro conjI impI)
  show "length (create_venues_from_snapshot data) = card (publisher_id ` set data)"
    by (rule create_length)
  show "distinct (map id' (create_venues_from_snapshot data))"
    by (rule create_distinct)
next
  assume f: "first_record p data = Some r"
  let ?x = "mk_Venue (str_int p) (ask_px_00 r) (ask_sz_00 r)"
  have "filter (\<lambda>v. id' v = id' ?x) (create_venues_from_snapshot data) = [?x]"
    using create_distinct create_first[OF f] by (rule filter_distinct_key)
  then show "filter (\<lambda>v. id' v = str_int p) (create_venues_from_snapshot data) = [?x]"
    by (simp add: mk_Venue_def)
next
  assume "v \<in> set (create_venues_from_snapshot data)"
  then show "\<exists>r. first_record (publisher_id r) data = Some r \<and>
      v = mk_Venue (str_int (publisher_id r)) (ask_px_00 r) (ask_sz_00 r)"
    by (rule create_member)
qed

theorem create_venues_first_seen_witness:
  "first_record 1
     [\<lparr>publisher_id = 1, ask_px_00 = Fin 10, ask_sz_00 = 500\<rparr>,
      \<lparr>publisher_id = 2, ask_px_00 = Fin 11, ask_sz_00 = 100\<rparr>,
      \<lparr>publisher_id = 1, ask_px_00 = Fin 12, ask_sz_00 = 300\<rparr>] =
     Some \<lparr>publisher_id = 1, ask_px_00 = Fin 10, ask_sz_00 = 500\<rparr> \<and>
   filter (\<lambda>v. id' v = ''1'')
     (create_venues_from_snapshot
       [\<lparr>publisher_id = 1, ask_px_00 = Fin 10, ask_sz_00 = 500\<rparr>,
        \<lparr>publisher_id = 2, ask_px_00 = Fin 11, ask_sz_00 = 100\<rparr>,
        \<lparr>publisher_id = 1, ask_px_00 = Fin 12, ask_sz_00 = 300\<rparr>]) =
     [mk_Venue ''1'' (Fin 10) 500] \<and>
   length (create_venues_from_snapshot
       [\<lparr>publisher_id = 1, ask_px_00 = Fin 10, ask_sz_00 = 500\<rparr>,
        \<lparr>publisher_id = 2, ask_px_00 = Fin 11, ask_sz_00 = 100\<rparr>,
        \<lparr>publisher_id = 1, ask_px_00 = Fin 12, ask_sz_00 = 300\<rparr>]) = 2 \<and>
   create_venues_from_snapshot
       [\<lparr>publisher_id = 1, ask_px_00 = Fin 10, ask_sz_00 = 500\<rparr>,
        \<lparr>publisher_id = 2, ask_px_00 = Fin 11, ask_sz_00 = 100\<rparr>,
        \<lparr>publisher_id = 1, ask_px_00 = Fin 12, ask_sz_00 = 300\<rparr>] =
     [mk_Venue ''1'' (Fin 10) 500, mk_Venue ''2'' (Fin 11) 100]"
proof -
  let ?r1 = "\<lparr>publisher_id = 1, ask_px_00 = Fin 10, ask_sz_00 = 500\<rparr>"
  let ?data = "[?r1, \<lparr>publisher_id = 2, ask_px_00 = Fin 11, ask_sz_00 = 100\<rparr>,
      \<lparr>publisher_id = 1, ask_px_00 = Fin 12, ask_sz_00 = 300\<rparr>]"
  have s1: "str_int 1 = ''1''" by code_simp
  have s2: "str_int 2 = ''2''" by code_simp
  have h: "first_record 1 ?data = Some ?r1" by (simp add: first_record_def)
  have c: "card (publisher_id ` set ?data) = 2" by (simp add: card_insert_if)
  have e: "create_venues_from_snapshot ?data = [mk_Venue ''1'' (Fin 10) 500, mk_Venue ''2'' (Fin 11) 100]"
    by (simp add: create_venues_from_snapshot_def s1 s2)
  note t = create_venues_first_seen[of ?data 1 ?r1]
  from t h have f: "filter (\<lambda>v. id' v = ''1'') (create_venues_from_snapshot ?data) =
      [mk_Venue ''1'' (Fin 10) 500]"
    by (simp only: s1 simp_thms raw_record.simps)
  from t c have l: "length (create_venues_from_snapshot ?data) = 2" by (simp only:)
  from h f l e show ?thesis by (intro conjI)
qed

end
